theory Spec2Isabelle
  imports Complex_Main "HOL-Library.Word" "HOL-Library.Multiset"
begin

unbundle bit_operations_syntax

section \<open>Errors\<close>

text \<open>
  The exceptions the notebooks can raise. The two generic \<^verbatim>\<open>Exception\<close>s of
  \<^verbatim>\<open>update_counter\<close> are told apart by their message:
  \<^verbatim>\<open>'Error: bit counter < 0'\<close> is \<open>CounterUnderflow\<close> and
  \<^verbatim>\<open>'Error: counter larger than max size'\<close> is \<open>CounterOverflow\<close>.
\<close>

datatype error =
    IndexError
  | ValueError
  | OverflowError
  | ZeroDivisionError
  | TypeError
  | CounterUnderflow
  | CounterOverflow

section \<open>The digest behind the hash functions\<close>

text \<open>
  All notebooks hash with
  \<^verbatim>\<open>int(hashlib.sha1(x.encode("utf-8")).hexdigest(), 16)\<close>.
  A key is modelled by its UTF-8 bytes (a \<open>string\<close>), and \<open>sha1_int\<close> is SHA-1 (FIPS 180)
  on 32-bit words, read as one 160-bit big-endian number.
\<close>

type_synonym w32 = "32 word"
type_synonym sha1_state = "w32 \<times> w32 \<times> w32 \<times> w32 \<times> w32"

definition rotl :: "nat \<Rightarrow> w32 \<Rightarrow> w32" where
  "rotl n w = (push_bit n w) OR (drop_bit (32 - n) w)"

definition be64 :: "nat \<Rightarrow> nat list" where
  "be64 n = [n div 2 ^ 56 mod 256, n div 2 ^ 48 mod 256, n div 2 ^ 40 mod 256, n div 2 ^ 32 mod 256,
             n div 2 ^ 24 mod 256, n div 2 ^ 16 mod 256, n div 2 ^ 8 mod 256, n mod 256]"

definition sha1_pad :: "nat list \<Rightarrow> nat list" where
  "sha1_pad bs = bs @ [128] @ replicate ((119 - length bs mod 64) mod 64) 0 @ be64 (8 * length bs)"

fun to_words :: "nat list \<Rightarrow> w32 list" where
  "to_words (a # b # c # d # rest) = word_of_nat (((a * 256 + b) * 256 + c) * 256 + d) # to_words rest"
| "to_words _ = []"

text \<open>The message schedule is kept newest word first: \<open>W(t-1), W(t-2), ...\<close>\<close>

fun sha1_w :: "w32 list \<Rightarrow> w32" where
  "sha1_w (w1 # w2 # w3 # w4 # w5 # w6 # w7 # w8 # w9 # w10 # w11 # w12 # w13 # w14 # w15 # w16 # ws) =
     rotl 1 (w3 XOR w8 XOR w14 XOR w16)"
| "sha1_w ws = 0"

function sha1_expand :: "nat \<Rightarrow> w32 list \<Rightarrow> w32 list" where
  "sha1_expand t ws = (if 80 \<le> t then ws else sha1_expand (t + 1) (sha1_w ws # ws))"
  by pat_completeness auto
termination
  by (relation "measure (\<lambda>(t, ws). 80 - t)") auto

declare sha1_expand.simps [simp del]

definition sha1_f :: "nat \<Rightarrow> w32 \<Rightarrow> w32 \<Rightarrow> w32 \<Rightarrow> w32" where
  "sha1_f t b c d =
     (if t < 20 then (b AND c) OR (NOT b AND d)
      else if t < 40 then b XOR c XOR d
      else if t < 60 then (b AND c) OR (b AND d) OR (c AND d)
      else b XOR c XOR d)"

definition sha1_k :: "nat \<Rightarrow> w32" where
  "sha1_k t = (if t < 20 then 0x5A827999 else if t < 40 then 0x6ED9EBA1
               else if t < 60 then 0x8F1BBCDC else 0xCA62C1D6)"

fun sha1_step :: "nat \<Rightarrow> w32 \<Rightarrow> sha1_state \<Rightarrow> sha1_state" where
  "sha1_step t w (a, b, c, d, e) =
     (rotl 5 a + sha1_f t b c d + e + sha1_k t + w, a, rotl 30 b, c, d)"

text \<open>\<open>sha1_rounds t ws st\<close>: the state after rounds \<open>0 .. t-1\<close>, \<open>ws\<close> newest first.\<close>

fun sha1_rounds :: "nat \<Rightarrow> w32 list \<Rightarrow> sha1_state \<Rightarrow> sha1_state" where
  "sha1_rounds t [] st = st"
| "sha1_rounds t (w # ws) st = sha1_step (t - 1) w (sha1_rounds (t - 1) ws st)"

fun add_state :: "sha1_state \<Rightarrow> sha1_state \<Rightarrow> sha1_state" where
  "add_state (h0, h1, h2, h3, h4) (a, b, c, d, e) = (h0 + a, h1 + b, h2 + c, h3 + d, h4 + e)"

definition sha1_block :: "sha1_state \<Rightarrow> w32 list \<Rightarrow> sha1_state" where
  "sha1_block st ws = add_state st (sha1_rounds 80 (sha1_expand 16 (rev ws)) st)"

fun sha1_blocks :: "sha1_state \<Rightarrow> w32 list \<Rightarrow> sha1_state" where
  "sha1_blocks st [] = st"
| "sha1_blocks st (w # ws) = sha1_blocks (sha1_block st (take 16 (w # ws))) (drop 16 (w # ws))"

fun state_int :: "sha1_state \<Rightarrow> nat" where
  "state_int (h0, h1, h2, h3, h4) =
     (((unat h0 * 2 ^ 32 + unat h1) * 2 ^ 32 + unat h2) * 2 ^ 32 + unat h3) * 2 ^ 32 + unat h4"

definition sha1_int :: "string \<Rightarrow> nat" where
  "sha1_int s =
     state_int (sha1_blocks (0x67452301, 0xEFCDAB89, 0x98BADCFE, 0x10325476, 0xC3D2E1F0)
                  (to_words (sha1_pad (map of_char s))))"

text \<open>
  Words are kept as numerals below \<open>2^32\<close> while a digest is evaluated: \<open>norm32\<close> is
  the identity on 32-bit words and only marks where the simplifier reduces.
\<close>

definition norm32 :: "w32 \<Rightarrow> w32" where
  "norm32 w = w AND 0xFFFFFFFF"

section \<open>Hash functions of the notebooks\<close>

text \<open>Python's \<^verbatim>\<open>s * nr\<close> on a string, for \<open>nr \<ge> 0\<close>.\<close>

definition str_mul :: "string \<Rightarrow> nat \<Rightarrow> string" where
  "str_mul s nr = concat (replicate nr s)"

text \<open>
  \<^verbatim>\<open>def h(s, num_digits=1, nr=1):
    return int(hashlib.sha1((s*nr).encode("utf-8")).hexdigest(), 16) % (10 ** num_digits)\<close>
  (Bloom filter and distinct counting notebooks).
\<close>

definition h :: "string \<Rightarrow> nat \<Rightarrow> nat \<Rightarrow> nat" where
  "h s num_digits nr = sha1_int (str_mul s nr) mod (10 ^ num_digits)"

section \<open>Basic Bloom filter\<close>

type_synonym bitarray = "bool list"

text \<open>\<^verbatim>\<open>B = bitarray(num_buckets, endian='big'); B.setall(False)\<close>\<close>

definition init_B :: "nat \<Rightarrow> bitarray" where
  "init_B num_buckets = replicate num_buckets False"

text \<open>
  \<^verbatim>\<open>def add_key(s, B, num_digits, num_hash_functions):
    for nr in range(1, num_hash_functions+1):
        pos = h(s, num_digits=num_digits, nr=nr)
        B[pos] = 1

def fill_B(S, B, num_digits, num_hash_functions):
    for s in S:
        add_key(s, B, num_digits, num_hash_functions)\<close>
  The loops mutate \<open>B\<close> in place, so a raised exception leaves \<open>B\<close> as it was changed so
  far: a mutating function returns the exception, if any, together with the final \<open>B\<close>.
  \<^verbatim>\<open>B[pos] = 1\<close> raises IndexError for \<open>pos\<close> beyond the array.
\<close>

fun add_key_loop :: "string \<Rightarrow> nat \<Rightarrow> nat list \<Rightarrow> bitarray \<Rightarrow> error option \<times> bitarray" where
  "add_key_loop s num_digits [] B = (None, B)"
| "add_key_loop s num_digits (nr # nrs) B =
     (if h s num_digits nr < length B
      then add_key_loop s num_digits nrs (B[h s num_digits nr := True])
      else (Some IndexError, B))"

definition add_key :: "string \<Rightarrow> bitarray \<Rightarrow> nat \<Rightarrow> nat \<Rightarrow> error option \<times> bitarray" where
  "add_key s B num_digits num_hash_functions =
     add_key_loop s num_digits [1..<num_hash_functions + 1] B"

fun fill_B :: "string list \<Rightarrow> bitarray \<Rightarrow> nat \<Rightarrow> nat \<Rightarrow> error option \<times> bitarray" where
  "fill_B [] B num_digits num_hash_functions = (None, B)"
| "fill_B (s # S) B num_digits num_hash_functions =
     (case add_key s B num_digits num_hash_functions of
        (Some e, B') \<Rightarrow> (Some e, B')
      | (None, B') \<Rightarrow> fill_B S B' num_digits num_hash_functions)"

text \<open>
  \<^verbatim>\<open>def check_key(s, B, num_digits, num_hash_functions):
    cnt = 0
    for nr in range(1, num_hash_functions+1):
        pos = h(s, num_digits=num_digits, nr=nr)
        cnt += int(B[pos])
    if cnt == num_hash_functions:
        return True
    else:
        return False\<close>
\<close>

fun check_key_loop :: "string \<Rightarrow> nat \<Rightarrow> nat list \<Rightarrow> bitarray \<Rightarrow> nat \<Rightarrow> error + nat" where
  "check_key_loop s num_digits [] B cnt = Inr cnt"
| "check_key_loop s num_digits (nr # nrs) B cnt =
     (if h s num_digits nr < length B
      then check_key_loop s num_digits nrs B (cnt + (if B ! h s num_digits nr then 1 else 0))
      else Inl IndexError)"

definition check_key :: "string \<Rightarrow> bitarray \<Rightarrow> nat \<Rightarrow> nat \<Rightarrow> error + bool" where
  "check_key s B num_digits num_hash_functions =
     (case check_key_loop s num_digits [1..<num_hash_functions + 1] B 0 of
        Inl e \<Rightarrow> Inl e
      | Inr cnt \<Rightarrow> Inr (cnt = num_hash_functions))"

section \<open>Counting Bloom filter\<close>

text \<open>
  \<^verbatim>\<open>B = bitarray(num_buckets*bits_per_counter); B.setall(False)\<close>: bucket \<open>pos\<close> owns
  the bits \<open>pos * bits_per_counter\<close> up to \<open>pos * bits_per_counter + bits_per_counter\<close>.
\<close>

definition init_counting_B :: "nat \<Rightarrow> nat \<Rightarrow> bitarray" where
  "init_counting_B num_buckets bits_per_counter = replicate (num_buckets * bits_per_counter) False"

text \<open>
  Python slices with bounds \<open>a \<le> b\<close>: reading \<^verbatim>\<open>xs[a:b]\<close> clips to the length, and
  the assignment \<^verbatim>\<open>xs[a:b] = c\<close> replaces that part by \<open>c\<close>, whatever the length of
  \<open>c\<close>.
\<close>

definition py_slice :: "'a list \<Rightarrow> nat \<Rightarrow> nat \<Rightarrow> 'a list" where
  "py_slice xs a b = take (b - a) (drop a xs)"

definition py_set_slice :: "'a list \<Rightarrow> nat \<Rightarrow> nat \<Rightarrow> 'a list \<Rightarrow> 'a list" where
  "py_set_slice xs a b c = take a xs @ c @ drop (max a b) xs"

text \<open>
  \<^verbatim>\<open>ba2int\<close> reads a big-endian bitarray as an unsigned integer and raises ValueError on
  an empty one.
\<close>

definition bits_value :: "bitarray \<Rightarrow> int" where
  "bits_value c = foldl (\<lambda>n b. 2 * n + (if b then 1 else 0)) 0 c"

definition ba2int :: "bitarray \<Rightarrow> error + int" where
  "ba2int c = (if c = [] then Inl ValueError else Inr (bits_value c))"

text \<open>
  \<^verbatim>\<open>bitarray(format(int_val, '0{}b'.format(bits_per_counter)))\<close> for \<open>int_val \<ge> 0\<close>: the
  binary digits of the value, most significant first, padded on the left with zeros to
  the width, and never cut.
\<close>

fun bin_digits :: "nat \<Rightarrow> bitarray" where
  "bin_digits n = (if n < 2 then [n = 1] else bin_digits (n div 2) @ [odd n])"

declare bin_digits.simps [simp del]

definition format_0b :: "nat \<Rightarrow> int \<Rightarrow> bitarray" where
  "format_0b w v = replicate (w - length (bin_digits (nat v))) False @ bin_digits (nat v)"

text \<open>
  \<^verbatim>\<open>def update_counter(counter, bits_per_counter, update='inc'):
    int_val = ba2int(counter)
    if update == 'inc':
        int_val += 1
    else:
        int_val -= 1
    if int_val < 0:
        raise Exception('Error: bit counter < 0')
    if int_val >= 2**bits_per_counter:
        raise Exception('Error: counter larger than max size')
    bit_string = format(int_val, '0{}b'.format(bits_per_counter))
    return bitarray(bit_string)\<close>
\<close>

definition update_counter :: "bitarray \<Rightarrow> nat \<Rightarrow> string \<Rightarrow> error + bitarray" where
  "update_counter counter bits_per_counter update =
     (case ba2int counter of
        Inl e \<Rightarrow> Inl e
      | Inr v \<Rightarrow>
          (let int_val = (if update = ''inc'' then v + 1 else v - 1) in
           if int_val < 0 then Inl CounterUnderflow
           else if int_val \<ge> 2 ^ bits_per_counter then Inl CounterOverflow
           else Inr (format_0b bits_per_counter int_val)))"

text \<open>
  \<^verbatim>\<open>B[pos*bits_per_counter:(pos*bits_per_counter+bits_per_counter)]\<close>, read and
  assigned.
\<close>

definition counter_at :: "bitarray \<Rightarrow> nat \<Rightarrow> nat \<Rightarrow> bitarray" where
  "counter_at B pos bits_per_counter =
     py_slice B (pos * bits_per_counter) (pos * bits_per_counter + bits_per_counter)"

definition set_counter_at :: "bitarray \<Rightarrow> nat \<Rightarrow> nat \<Rightarrow> bitarray \<Rightarrow> bitarray" where
  "set_counter_at B pos bits_per_counter counter =
     py_set_slice B (pos * bits_per_counter) (pos * bits_per_counter + bits_per_counter) counter"

text \<open>
  \<^verbatim>\<open>def update_key(s, B, num_digits, num_hash_functions, bits_per_counter, update):
    for nr in range(1, num_hash_functions+1):
        pos = h(s, num_digits=num_digits, nr=nr)
        counter = B[pos*bits_per_counter:(pos*bits_per_counter+bits_per_counter)]
        if update == 'insert':
            counter = update_counter(counter, bits_per_counter, update='inc')
        else:
            counter = update_counter(counter, bits_per_counter, update='dec')
        B[pos*bits_per_counter:(pos*bits_per_counter+bits_per_counter)] = counter\<close>
  Each counter is written back before the next one is read, so an exception of
  \<open>update_counter\<close> leaves the earlier writes in \<open>B\<close>.
\<close>

fun update_key_loop ::
  "string \<Rightarrow> nat \<Rightarrow> nat \<Rightarrow> string \<Rightarrow> nat list \<Rightarrow> bitarray \<Rightarrow> error option \<times> bitarray" where
  "update_key_loop s num_digits bits_per_counter update [] B = (None, B)"
| "update_key_loop s num_digits bits_per_counter update (nr # nrs) B =
     (case update_counter (counter_at B (h s num_digits nr) bits_per_counter) bits_per_counter
             (if update = ''insert'' then ''inc'' else ''dec'') of
        Inl e \<Rightarrow> (Some e, B)
      | Inr counter \<Rightarrow>
          update_key_loop s num_digits bits_per_counter update nrs
            (set_counter_at B (h s num_digits nr) bits_per_counter counter))"

definition update_key ::
  "string \<Rightarrow> bitarray \<Rightarrow> nat \<Rightarrow> nat \<Rightarrow> nat \<Rightarrow> string \<Rightarrow> error option \<times> bitarray" where
  "update_key s B num_digits num_hash_functions bits_per_counter update =
     update_key_loop s num_digits bits_per_counter update [1..<num_hash_functions + 1] B"

definition insert_key :: "string \<Rightarrow> bitarray \<Rightarrow> nat \<Rightarrow> nat \<Rightarrow> nat \<Rightarrow> error option \<times> bitarray" where
  "insert_key s B num_digits num_hash_functions bits_per_counter =
     update_key s B num_digits num_hash_functions bits_per_counter ''insert''"

definition delete_key :: "string \<Rightarrow> bitarray \<Rightarrow> nat \<Rightarrow> nat \<Rightarrow> nat \<Rightarrow> error option \<times> bitarray" where
  "delete_key s B num_digits num_hash_functions bits_per_counter =
     update_key s B num_digits num_hash_functions bits_per_counter ''delete''"

text \<open>
  The notebook's insertion test,
  \<^verbatim>\<open>for _ in range(10):
    try:
        insert_key(s, B, num_digits, num_hash_functions, bits_per_counter)
    except Exception as e:
        print(e)\<close>
  for any number of rounds: the outcome of each call, and \<open>B\<close> at the end.
\<close>

fun insert_repeat ::
  "nat \<Rightarrow> string \<Rightarrow> bitarray \<Rightarrow> nat \<Rightarrow> nat \<Rightarrow> nat \<Rightarrow> error option list \<times> bitarray" where
  "insert_repeat 0 s B num_digits num_hash_functions bits_per_counter = ([], B)"
| "insert_repeat (Suc n) s B num_digits num_hash_functions bits_per_counter =
     (case insert_key s B num_digits num_hash_functions bits_per_counter of
        (r, B') \<Rightarrow>
          (case insert_repeat n s B' num_digits num_hash_functions bits_per_counter of
             (rs, B'') \<Rightarrow> (r # rs, B'')))"

text \<open>The count stored at bucket \<open>p\<close>: \<^verbatim>\<open>ba2int\<close> of its counter bits.\<close>

definition cv :: "bitarray \<Rightarrow> nat \<Rightarrow> nat \<Rightarrow> int" where
  "cv B w p = bits_value (counter_at B p w)"

section \<open>Reservoir sampling\<close>

text \<open>
  \<^verbatim>\<open>np.random.randint(low, high)\<close> returns an integer of \<open>[low, high)\<close> and raises
  ValueError when the range is empty. The generator is an explicit argument: \<open>raw\<close> is its
  next raw draw, and every value of the range is the result for some draw.
\<close>

definition np_randint :: "nat \<Rightarrow> nat \<Rightarrow> nat \<Rightarrow> error + nat" where
  "np_randint low high raw =
     (if low \<ge> high then Inl ValueError else Inr (low + raw mod (high - low)))"

text \<open>
  \<^verbatim>\<open>def handle_new_item(t, item):
    if t < B:
        RESERVOIR[t] = item
        return 'Item {} added to reservoir'.format(item)
    pos = np.random.randint(0, t)
    if pos < len(RESERVOIR):
        RESERVOIR[pos] = item
        return '{} < {} => RESERVOIR[{}] replaced with item {}'.format(...)
    else:
        return '{} > {} => item {} discarded'.format(...)\<close>
  The function reads the globals \<open>B\<close> and \<open>RESERVOIR\<close>; the message it returns for
  printing is kept as the decision taken.
\<close>

datatype decision = Added | Replaced nat | Discarded nat

definition handle_new_item ::
  "nat \<Rightarrow> nat \<Rightarrow> nat \<Rightarrow> string \<Rightarrow> string list \<Rightarrow> error + (decision \<times> string list)" where
  "handle_new_item B raw t item RESERVOIR =
     (if t < B then
        (if t < length RESERVOIR then Inr (Added, RESERVOIR[t := item]) else Inl IndexError)
      else
        (case np_randint 0 t raw of
           Inl e \<Rightarrow> Inl e
         | Inr pos \<Rightarrow>
             if pos < length RESERVOIR then Inr (Replaced pos, RESERVOIR[pos := item])
             else Inr (Discarded pos, RESERVOIR)))"

text \<open>
  \<^verbatim>\<open>RESERVOIR = ['_']*B\<close>, then
  \<^verbatim>\<open>for t, item in enumerate(stream): handle_new_item(t, item)\<close>;
  \<open>rng t\<close> is the raw draw available at step \<open>t\<close>.
\<close>

fun reservoir_loop ::
  "nat \<Rightarrow> (nat \<Rightarrow> nat) \<Rightarrow> nat \<Rightarrow> string list \<Rightarrow> string list \<Rightarrow> error + string list" where
  "reservoir_loop B rng t [] RESERVOIR = Inr RESERVOIR"
| "reservoir_loop B rng t (item # stream) RESERVOIR =
     (case handle_new_item B (rng t) t item RESERVOIR of
        Inl e \<Rightarrow> Inl e
      | Inr (msg, RESERVOIR') \<Rightarrow> reservoir_loop B rng (t + 1) stream RESERVOIR')"

definition reservoir_sample :: "nat \<Rightarrow> (nat \<Rightarrow> nat) \<Rightarrow> string list \<Rightarrow> error + string list" where
  "reservoir_sample B rng stream = reservoir_loop B rng 0 stream (replicate B ''_'')"

section \<open>Sampling based on keys\<close>

text \<open>
  The sampling notebook's hash function
  \<^verbatim>\<open>def h(s, num_buckets):
    return int(hashlib.sha1((s).encode("utf-8")).hexdigest(), 16) % num_buckets\<close>
  (named \<open>h_buckets\<close> here, \<open>h\<close> being the hash function of the other notebooks).
  \<^verbatim>\<open>%\<close> raises ZeroDivisionError for zero buckets and takes the sign of the divisor, as
  \<open>mod\<close> on \<open>int\<close> does.
\<close>

definition h_buckets :: "string \<Rightarrow> int \<Rightarrow> error + int" where
  "h_buckets s num_buckets =
     (if num_buckets = 0 then Inl ZeroDivisionError
      else Inr (int (sha1_int s) mod num_buckets))"

text \<open>
  \<^verbatim>\<open>line.split(',')\<close>, and the first of its fields: the key \<open>ip\<close> of a record
  \<^verbatim>\<open>ip,ts\<close>.
\<close>

fun split_comma_aux :: "string \<Rightarrow> string \<Rightarrow> string list" where
  "split_comma_aux acc [] = [rev acc]"
| "split_comma_aux acc (c # cs) =
     (if c = CHR '','' then rev acc # split_comma_aux [] cs else split_comma_aux (c # acc) cs)"

definition split_comma :: "string \<Rightarrow> string list" where
  "split_comma line = split_comma_aux [] line"

definition key_of :: "string \<Rightarrow> string" where
  "key_of line = hd (split_comma line)"

text \<open>The test of the loop, \<^verbatim>\<open>h(ip, b) < a\<close>.\<close>

definition accepts :: "string \<Rightarrow> int \<Rightarrow> int \<Rightarrow> error + bool" where
  "accepts ip a b = (case h_buckets ip b of Inl e \<Rightarrow> Inl e | Inr v \<Rightarrow> Inr (v < a))"

text \<open>
  \<^verbatim>\<open>for line in f:
    ip, ts = line.split(',')
    if h(ip, b) < a:
        SAMPLE.append(ip)\<close>
  The unpacking raises ValueError unless the line has exactly two fields.
\<close>

fun sample_by_key :: "int \<Rightarrow> int \<Rightarrow> string list \<Rightarrow> string list \<Rightarrow> error option \<times> string list" where
  "sample_by_key a b [] SAMPLE = (None, SAMPLE)"
| "sample_by_key a b (line # f) SAMPLE =
     (case split_comma line of
        [ip, ts] \<Rightarrow>
          (case accepts ip a b of
             Inl e \<Rightarrow> (Some e, SAMPLE)
           | Inr ok \<Rightarrow> sample_by_key a b f (if ok then SAMPLE @ [ip] else SAMPLE))
      | _ \<Rightarrow> (Some ValueError, SAMPLE))"

section \<open>Distinct counting (Flajolet-Martin)\<close>

text \<open>
  \<^verbatim>\<open>def get_r(x: int):
    return int(np.log2(x&-x))\<close>
  \<open>x & -x\<close> is the lowest set bit of \<open>x\<close>, a power of two, on which \<^verbatim>\<open>np.log2\<close> is
  exact; \<open>ilog2\<close> is its integer logarithm. For \<open>x = 0\<close> the logarithm is minus infinity
  and \<^verbatim>\<open>int\<close> raises OverflowError (ValueError on a NaN); an integer that does not fit
  64 bits is no argument of \<^verbatim>\<open>np.log2\<close> (TypeError).
\<close>

fun ilog2 :: "nat \<Rightarrow> nat" where
  "ilog2 n = (if n < 2 then 0 else Suc (ilog2 (n div 2)))"

declare ilog2.simps [simp del]

definition get_r :: "int \<Rightarrow> error + nat" where
  "get_r x =
     (if x AND - x \<ge> 2 ^ 64 then Inl TypeError
      else if x AND - x = 0 then Inl OverflowError
      else if x AND - x < 0 then Inl ValueError
      else Inr (ilog2 (nat (x AND - x))))"

text \<open>
  The body of the loops over the stream, for the hash function of index \<open>i\<close>:
  \<^verbatim>\<open>r = int(get_r(h(ip, nr=i+1, num_digits=8)))\<close>.
\<close>

definition r_of :: "string \<Rightarrow> nat \<Rightarrow> error + nat" where
  "r_of ip i = get_r (int (h ip 8 (i + 1)))"

text \<open>
  \<^verbatim>\<open>for i in range(num_hashes):
    r = int(get_r(h(ip, nr=i+1, num_digits=8)))
    if r > Rs[i]:
        Rs[i] = r\<close>
  on the array \<open>Rs\<close>, which keeps the updates made before an exception.
\<close>

fun Rs_update_loop :: "string \<Rightarrow> nat list \<Rightarrow> nat list \<Rightarrow> error option \<times> nat list" where
  "Rs_update_loop ip [] Rs = (None, Rs)"
| "Rs_update_loop ip (i # is) Rs =
     (case r_of ip i of
        Inl e \<Rightarrow> (Some e, Rs)
      | Inr r \<Rightarrow>
          if i < length Rs
          then Rs_update_loop ip is (if r > Rs ! i then Rs[i := r] else Rs)
          else (Some IndexError, Rs))"

definition Rs_update :: "string \<Rightarrow> nat \<Rightarrow> nat list \<Rightarrow> error option \<times> nat list" where
  "Rs_update ip num_hashes Rs = Rs_update_loop ip [0..<num_hashes] Rs"

text \<open>
  \<^verbatim>\<open>Rs = np.array([0] * num_hashes)\<close> and the loop over the lines of the log; \<open>ips\<close> are
  the keys \<^verbatim>\<open>ip = line.strip()\<close>.
\<close>

fun flajolet_martin_loop :: "string list \<Rightarrow> nat \<Rightarrow> nat list \<Rightarrow> error option \<times> nat list" where
  "flajolet_martin_loop [] num_hashes Rs = (None, Rs)"
| "flajolet_martin_loop (ip # ips) num_hashes Rs =
     (case Rs_update ip num_hashes Rs of
        (Some e, Rs') \<Rightarrow> (Some e, Rs')
      | (None, Rs') \<Rightarrow> flajolet_martin_loop ips num_hashes Rs')"

definition flajolet_martin :: "string list \<Rightarrow> nat \<Rightarrow> error option \<times> nat list" where
  "flajolet_martin ips num_hashes = flajolet_martin_loop ips num_hashes (replicate num_hashes 0)"

text \<open>The trailing-zero count of a key under hash function \<open>i\<close>, where it is defined.\<close>

definition tz :: "string \<Rightarrow> nat \<Rightarrow> nat" where
  "tz ip i = (case r_of ip i of Inl e \<Rightarrow> 0 | Inr r \<Rightarrow> r)"

section \<open>Distinct counting: the final estimate\<close>

text \<open>
  \<^verbatim>\<open>np.random.shuffle\<close> on a one-dimensional array: for \<open>i\<close> from the last index down
  to 1, the element at \<open>i\<close> is swapped with the one at a random index of \<open>[0, i]\<close>;
  \<open>rng i\<close> is the generator's raw draw at step \<open>i\<close>.
\<close>

fun shuffle_loop :: "(nat \<Rightarrow> nat) \<Rightarrow> nat \<Rightarrow> 'a list \<Rightarrow> 'a list" where
  "shuffle_loop rng 0 xs = xs"
| "shuffle_loop rng (Suc i) xs =
     shuffle_loop rng i
       (xs[Suc i := xs ! (rng (Suc i) mod (Suc i + 1)),
           rng (Suc i) mod (Suc i + 1) := xs ! Suc i])"

definition np_shuffle :: "(nat \<Rightarrow> nat) \<Rightarrow> 'a list \<Rightarrow> 'a list" where
  "np_shuffle rng xs = shuffle_loop rng (length xs - 1) xs"

text \<open>
  \<^verbatim>\<open>np.split(ary, num_sections)\<close>: equal sections in order; ValueError when the length
  is not a multiple of \<open>num_sections\<close> (the modulo by zero sections raises first).
\<close>

fun sections :: "nat \<Rightarrow> nat \<Rightarrow> 'a list \<Rightarrow> 'a list list" where
  "sections 0 sz xs = []"
| "sections (Suc k) sz xs = take sz xs # sections k sz (drop sz xs)"

definition np_split :: "'a list \<Rightarrow> nat \<Rightarrow> error + 'a list list" where
  "np_split ary num_sections =
     (if num_sections = 0 then Inl ZeroDivisionError
      else if length ary mod num_sections \<noteq> 0 then Inl ValueError
      else Inr (sections num_sections (length ary div num_sections) ary))"

text \<open>
  \<^verbatim>\<open>np.power(2, Rs)\<close> on \<^verbatim>\<open>Rs = np.array([0] * num_hashes)\<close>, an array of 64-bit
  integers: the powers are taken in 64-bit two's complement arithmetic, where \<open>2 ^ 63\<close>
  wraps to \<open>- 2 ^ 63\<close> and every higher power of two to 0.
\<close>

definition np_power :: "int \<Rightarrow> nat list \<Rightarrow> int list" where
  "np_power b Rs = map (\<lambda>r. sint ((word_of_int b :: 64 word) ^ r)) Rs"

text \<open>
  \<^verbatim>\<open>np.median\<close> and \<^verbatim>\<open>np.mean\<close> compute in double precision. A double is modelled
  by the rational it stands for, and \<open>float64_round x\<close> is the double nearest to the rational
  \<open>x\<close>, a tie going to the even mantissa: for \<open>2 ^ e \<le> \<bar>x\<bar> < 2 ^ (e + 1)\<close> the doubles
  around \<open>x\<close> are the multiples of \<open>2 ^ (e - 52)\<close>, and of \<open>2 ^ - 1074\<close> below the normal
  range. Every elementary operation returns the rounded exact result. The overflow to
  infinity at \<open>2 ^ 1024\<close> is left out: the values here are sums and quotients of 64-bit
  integers.
\<close>

function floor_log2 :: "int \<Rightarrow> int" where
  "floor_log2 n = (if n < 2 then 0 else floor_log2 (n div 2) + 1)"
  by pat_completeness auto

termination
  by (relation "measure nat") auto

declare floor_log2.simps [simp del]

text \<open>\<open>fexp x\<close> is the exponent \<open>e\<close> with \<open>2 ^ e \<le> x < 2 ^ (e + 1)\<close>, for \<open>x > 0\<close>.\<close>

definition fexp :: "rat \<Rightarrow> int" where
  "fexp x = (if 1 \<le> x then floor_log2 \<lfloor>x\<rfloor> else - floor_log2 (\<lceil>1 / x\<rceil> - 1) - 1)"

definition round_half_even :: "rat \<Rightarrow> int" where
  "round_half_even x =
     (if x - of_int \<lfloor>x\<rfloor> < 1 / 2 then \<lfloor>x\<rfloor>
      else if 1 / 2 < x - of_int \<lfloor>x\<rfloor> then \<lfloor>x\<rfloor> + 1
      else if even \<lfloor>x\<rfloor> then \<lfloor>x\<rfloor> else \<lfloor>x\<rfloor> + 1)"

definition float64_ulp :: "rat \<Rightarrow> rat" where
  "float64_ulp x = power_int 2 (max (fexp \<bar>x\<bar>) (- 1022) - 52)"

definition float64_round :: "rat \<Rightarrow> rat" where
  "float64_round x =
     (if x = 0 then 0 else of_int (round_half_even (x / float64_ulp x)) * float64_ulp x)"

definition fadd :: "rat \<Rightarrow> rat \<Rightarrow> rat" where
  "fadd x y = float64_round (x + y)"

text \<open>
  The sum of an array of doubles, as \<^verbatim>\<open>np.add.reduce\<close> takes it over contiguous memory
  (numpy's pairwise summation): fewer than 8 elements are added one after the other; up to
  128 elements are added into 8 accumulators, element \<open>i\<close> into accumulator \<open>i mod 8\<close>, the
  accumulators are added as \<open>((r0 + r1) + (r2 + r3)) + ((r4 + r5) + (r6 + r7))\<close> and the
  elements after the last full block of 8 one after the other; a longer array is cut at
  half its length, rounded down to a multiple of 8, and the sums of the two parts are
  added.
\<close>

fun add_blocks :: "rat list \<Rightarrow> rat list \<Rightarrow> rat list" where
  "add_blocks r xs = (if xs = [] then r else add_blocks (map2 fadd r (take 8 xs)) (drop 8 xs))"

declare add_blocks.simps [simp del]

function pairwise_sum :: "rat list \<Rightarrow> rat" where
  "pairwise_sum a =
     (if length a < 8 then foldl fadd 0 a
      else if length a \<le> 128 then
        (let r = add_blocks (take 8 a) (drop 8 (take (length a - length a mod 8) a)) in
         foldl fadd
           (fadd (fadd (fadd (r ! 0) (r ! 1)) (fadd (r ! 2) (r ! 3)))
                 (fadd (fadd (r ! 4) (r ! 5)) (fadd (r ! 6) (r ! 7))))
           (drop (length a - length a mod 8) a))
      else fadd (pairwise_sum (take (length a div 2 - length a div 2 mod 8) a))
                (pairwise_sum (drop (length a div 2 - length a div 2 mod 8) a)))"
  by pat_completeness auto

termination
proof (relation "measure length")
  show "wf (measure length)" by simp
next
  fix a :: "rat list"
  assume "\<not> length a < 8" "\<not> length a \<le> 128"
  then show "(take (length a div 2 - length a div 2 mod 8) a, a) \<in> measure length"
    by simp
next
  fix a :: "rat list"
  assume "\<not> length a < 8" "\<not> length a \<le> 128"
  then have "8 \<le> length a div 2" by linarith
  moreover have "length a div 2 mod 8 < 8" by simp
  ultimately have "0 < length a div 2 - length a div 2 mod 8" by linarith
  then show "(drop (length a div 2 - length a div 2 mod 8) a, a) \<in> measure length"
    using \<open>\<not> length a < 8\<close> by simp
qed

declare pairwise_sum.simps [simp del]

text \<open>
  \<^verbatim>\<open>np.mean(a)\<close> on doubles: the sum divided by the number of elements; \<open>None\<close> is the
  NaN returned for an empty array or for an array with a NaN in it.
\<close>

definition np_mean :: "rat option list \<Rightarrow> rat option" where
  "np_mean a =
     (if a = [] \<or> None \<in> set a then None
      else Some (float64_round (pairwise_sum (map the a) / float64_round (of_nat (length a)))))"

text \<open>
  \<^verbatim>\<open>np.median(a)\<close> on integers: \<^verbatim>\<open>np.mean\<close> of the middle element of the sorted array,
  or of its two middle elements when the length is even, the integers being converted to
  doubles first; NaN for an empty array.
\<close>

definition np_median :: "int list \<Rightarrow> rat option" where
  "np_median a =
     (if a = [] then None
      else np_mean (map (\<lambda>x. Some (float64_round (of_int x)))
             (if odd (length a) then [sort a ! (length a div 2)]
              else [sort a ! (length a div 2 - 1), sort a ! (length a div 2)])))"

text \<open>
  \<^verbatim>\<open>estimates = np.power(2, Rs)
np.random.shuffle(estimates)
medians = []
for split in np.split(estimates, num_groups):
    medians.append(np.median(split))
final_estimate = np.mean(medians)\<close>
\<close>

definition final_estimate :: "(nat \<Rightarrow> nat) \<Rightarrow> nat list \<Rightarrow> nat \<Rightarrow> error + rat option" where
  "final_estimate rng Rs num_groups =
     (case np_split (np_shuffle rng (np_power 2 Rs)) num_groups of
        Inl e \<Rightarrow> Inl e
      | Inr splits \<Rightarrow> Inr (np_mean (map np_median splits)))"

text \<open>
  What the specification asks of a median, in its own terms: at least half of the values
  are at most \<open>m\<close> and at least half are at least \<open>m\<close>.
\<close>

definition is_median :: "rat \<Rightarrow> int list \<Rightarrow> bool" where
  "is_median m xs \<longleftrightarrow>
     length xs \<le> 2 * length (filter (\<lambda>x. of_int x \<le> m) xs)
     \<and> length xs \<le> 2 * length (filter (\<lambda>x. m \<le> of_int x) xs)"

section \<open>Evaluating the digest\<close>

lemma norm32_id: "norm32 w = w"
proof -
  have "w AND mask 32 = w"
    by (rule bit_eqI) (auto simp: bit_simps dest: bit_imp_le_length)
  then show ?thesis by (simp add: norm32_def mask_eq_exp_minus_1)
qed

lemma replicate_numeral: "replicate (numeral k) x = x # replicate (pred_numeral k) x"
  by (simp add: numeral_eq_Suc)

lemma ch_alt: "(b AND c) OR (NOT b AND d) = d XOR (b AND (c XOR d))" for b c d :: w32
  by (rule bit_eqI) (auto simp: bit_simps)

lemma sha1_f_eval:
  "sha1_f t b c d =
     (if t < 20 then d XOR (b AND (c XOR d))
      else if t < 40 then b XOR c XOR d
      else if t < 60 then (b AND c) OR (b AND d) OR (c AND d)
      else b XOR c XOR d)"
  by (simp add: sha1_f_def ch_alt)

lemma sha1_w_eval:
  "sha1_w (w1 # w2 # w3 # w4 # w5 # w6 # w7 # w8 # w9 # w10 # w11 # w12 # w13 # w14 # w15 # w16 # ws) =
     norm32 (rotl 1 (w3 XOR w8 XOR w14 XOR w16))"
  by (simp add: norm32_id)

lemma sha1_step_eval:
  "sha1_step t w (a, b, c, d, e) =
     (norm32 (rotl 5 a + sha1_f t b c d + e + sha1_k t + w), a, norm32 (rotl 30 b), c, d)"
  by (simp add: norm32_id)

lemma add_state_eval:
  "add_state (h0, h1, h2, h3, h4) (a, b, c, d, e) =
     (norm32 (h0 + a), norm32 (h1 + b), norm32 (h2 + c), norm32 (h3 + d), norm32 (h4 + e))"
  by (simp add: norm32_id)

lemmas sha1_eval = sha1_int_def sha1_pad_def be64_def sha1_block_def rotl_def
  sha1_f_eval sha1_k_def replicate_numeral sha1_expand.simps
  sha1_w_eval sha1_step_eval add_state_eval norm32_def

lemma sha1_Hello_World_1:
  "sha1_int ''Hello World'' = 0x0a4d55a8d778e5022fab701977c5d840bbc486d0"
  by (simp add: sha1_eval del: sha1_w.simps sha1_step.simps add_state.simps)

lemma sha1_Hello_World_2:
  "sha1_int ''Hello WorldHello World'' = 0xe6e4650798d2dc91d0c4d0ae89ba3e14f067bf44"
  by (simp add: sha1_eval del: sha1_w.simps sha1_step.simps add_state.simps)

lemma sha1_Hello_World_3:
  "sha1_int ''Hello WorldHello WorldHello World'' = 0x2dc68f4538fcb933f9a1209fc9c1d5274f423163"
  by (simp add: sha1_eval del: sha1_w.simps sha1_step.simps add_state.simps)

lemma h_Hello_World_1 [simp]:
  "h ''Hello World'' (Suc 0) (Suc 0) = 2"
  "h ''Hello World'' (Suc 0) 2 = 6"
  "h ''Hello World'' (Suc 0) 3 = 9"
  by (simp_all add: h_def str_mul_def replicate_numeral
      sha1_Hello_World_1 sha1_Hello_World_2 sha1_Hello_World_3)

lemma upt_1_4: "[Suc 0..<4] = [Suc 0, 2, 3]"
  by (simp add: eval_nat_numeral upt_rec)

section \<open>Basic Bloom filter: no false negatives\<close>

lemma length_init_B [simp]: "length (init_B n) = n"
  by (simp add: init_B_def)

lemma add_key_loop_length:
  "add_key_loop s nd nrs B = (r, B') \<Longrightarrow> length B' = length B"
  by (induction nrs arbitrary: B) (auto split: if_splits)

lemma add_key_loop_keeps:
  "add_key_loop s nd nrs B = (r, B') \<Longrightarrow> i < length B \<Longrightarrow> B ! i \<Longrightarrow> B' ! i"
proof (induction nrs arbitrary: B)
  case Nil
  then show ?case by simp
next
  case (Cons nr nrs)
  show ?case
  proof (cases "h s nd nr < length B")
    case True
    with Cons.prems have *: "add_key_loop s nd nrs (B[h s nd nr := True]) = (r, B')"
      by simp
    have "(B[h s nd nr := True]) ! i"
      using Cons.prems(2,3) True by (simp add: nth_list_update)
    with Cons.IH [OF *] Cons.prems show ?thesis by simp
  next
    case False
    with Cons.prems show ?thesis by simp
  qed
qed

lemma add_key_loop_sets:
  "add_key_loop s nd nrs B = (None, B') \<Longrightarrow> nr \<in> set nrs \<Longrightarrow>
     h s nd nr < length B' \<and> B' ! h s nd nr"
proof (induction nrs arbitrary: B)
  case Nil
  then show ?case by simp
next
  case (Cons n nrs)
  from Cons.prems have lt: "h s nd n < length B"
    by (auto split: if_splits)
  with Cons.prems have *: "add_key_loop s nd nrs (B[h s nd n := True]) = (None, B')"
    by simp
  show ?case
  proof (cases "nr = n")
    case True
    have "(B[h s nd n := True]) ! h s nd n" using lt by simp
    with add_key_loop_keeps [OF *] add_key_loop_length [OF *] lt True
    show ?thesis by simp
  next
    case False
    with Cons.prems have "nr \<in> set nrs" by simp
    with Cons.IH [OF *] show ?thesis by simp
  qed
qed

lemma add_key_loop_total:
  "10 ^ nd \<le> length B \<Longrightarrow> \<exists>B'. add_key_loop s nd nrs B = (None, B')"
proof (induction nrs arbitrary: B)
  case Nil
  then show ?case by simp
next
  case (Cons nr nrs)
  have "h s nd nr < 10 ^ nd" by (simp add: h_def)
  with Cons.prems have "h s nd nr < length B" by simp
  with Cons show ?case by simp
qed

lemma fill_B_length:
  "fill_B S B nd k = (r, B') \<Longrightarrow> length B' = length B"
proof (induction S arbitrary: B)
  case Nil
  then show ?case by simp
next
  case (Cons s S)
  obtain r1 B1 where a: "add_key s B nd k = (r1, B1)" by (cases "add_key s B nd k")
  then have len: "length B1 = length B"
    by (simp add: add_key_def add_key_loop_length)
  show ?case
  proof (cases r1)
    case None
    with Cons.prems a have "fill_B S B1 nd k = (r, B')" by simp
    with Cons.IH len show ?thesis by simp
  next
    case (Some e)
    with Cons.prems a len show ?thesis by simp
  qed
qed

lemma fill_B_keeps:
  "fill_B S B nd k = (r, B') \<Longrightarrow> i < length B \<Longrightarrow> B ! i \<Longrightarrow> B' ! i"
proof (induction S arbitrary: B)
  case Nil
  then show ?case by simp
next
  case (Cons s S)
  obtain r1 B1 where a: "add_key s B nd k = (r1, B1)" by (cases "add_key s B nd k")
  then have a': "add_key_loop s nd [1..<k + 1] B = (r1, B1)" by (simp add: add_key_def)
  have len: "length B1 = length B" by (rule add_key_loop_length [OF a'])
  have keep: "B1 ! i" by (rule add_key_loop_keeps [OF a' Cons.prems(2,3)])
  show ?case
  proof (cases r1)
    case None
    with Cons.prems a have "fill_B S B1 nd k = (r, B')" by simp
    from Cons.IH [OF this] len keep Cons.prems(2) show ?thesis by simp
  next
    case (Some e)
    with Cons.prems a keep show ?thesis by simp
  qed
qed

lemma fill_B_sets:
  "fill_B S B nd k = (None, B') \<Longrightarrow> s \<in> set S \<Longrightarrow> nr \<in> {1..k} \<Longrightarrow>
     h s nd nr < length B' \<and> B' ! h s nd nr"
proof (induction S arbitrary: B)
  case Nil
  then show ?case by simp
next
  case (Cons x S)
  obtain r1 B1 where a: "add_key x B nd k = (r1, B1)" by (cases "add_key x B nd k")
  with Cons.prems have r1: "r1 = None" by (cases r1) auto
  with Cons.prems a have f: "fill_B S B1 nd k = (None, B')" by simp
  from a r1 have a': "add_key_loop x nd [1..<k + 1] B = (None, B1)" by (simp add: add_key_def)
  show ?case
  proof (cases "s = x")
    case True
    from Cons.prems(3) have "nr \<in> set [1..<k + 1]" by auto
    from add_key_loop_sets [OF a' this] True
    have "h s nd nr < length B1" "B1 ! h s nd nr" by simp_all
    with fill_B_keeps [OF f] fill_B_length [OF f] show ?thesis by simp
  next
    case False
    with Cons.prems have "s \<in> set S" by simp
    from Cons.IH [OF f this Cons.prems(3)] show ?thesis .
  qed
qed

lemma fill_B_total:
  "10 ^ nd \<le> length B \<Longrightarrow> \<exists>B'. fill_B S B nd k = (None, B')"
proof (induction S arbitrary: B)
  case Nil
  then show ?case by simp
next
  case (Cons s S)
  from add_key_loop_total [OF Cons.prems] obtain B1
    where a: "add_key s B nd k = (None, B1)" by (auto simp: add_key_def)
  then have "length B1 = length B" by (simp add: add_key_def add_key_loop_length)
  with Cons.prems Cons.IH [of B1] a show ?case by simp
qed

lemma check_key_loop_all_set:
  "\<forall>nr \<in> set nrs. h s nd nr < length B \<and> B ! h s nd nr \<Longrightarrow>
     check_key_loop s nd nrs B cnt = Inr (cnt + length nrs)"
  by (induction nrs arbitrary: cnt) auto

text \<open>
  Claim C3. Whatever the size of the bit array, the number of hash functions and the order
  of the keys: when \<open>fill_B\<close> has inserted the keys of \<open>S\<close> (it returned without an
  exception), \<open>check_key\<close> returns True for each of them; and on a bit array with the
  \<open>10 ^ num_digits\<close> buckets the notebook allocates, \<open>fill_B\<close> always returns.
\<close>

theorem bloom_no_false_negatives:
  "(fill_B S B num_digits num_hash_functions = (None, B') \<longrightarrow>
      (\<forall>s \<in> set S. check_key s B' num_digits num_hash_functions = Inr True))
   \<and> (10 ^ num_digits \<le> length B \<longrightarrow>
      (\<exists>B''. fill_B S B num_digits num_hash_functions = (None, B'')))"
proof (intro conjI impI ballI)
  fix s
  assume f: "fill_B S B num_digits num_hash_functions = (None, B')" and s: "s \<in> set S"
  have "\<forall>nr \<in> set [1..<num_hash_functions + 1].
          h s num_digits nr < length B' \<and> B' ! h s num_digits nr"
    using fill_B_sets [OF f s] by auto
  from check_key_loop_all_set [OF this, of 0]
  show "check_key s B' num_digits num_hash_functions = Inr True"
    by (simp add: check_key_def)
next
  assume "10 ^ num_digits \<le> length B"
  then show "\<exists>B''. fill_B S B num_digits num_hash_functions = (None, B'')"
    by (rule fill_B_total)
qed

lemma fill_Hello_World:
  "fill_B [''Hello World''] (init_B 10) (Suc 0) 3 =
     (None, [False, False, True, False, False, False, True, False, False, True])"
  by (simp add: add_key_def init_B_def replicate_numeral upt_1_4)

theorem bloom_no_false_negatives_witness:
  "fill_B [''Hello World''] (init_B 10) 1 3 =
     (None, [False, False, True, False, False, False, True, False, False, True])
   \<and> check_key ''Hello World'' [False, False, True, False, False, False, True, False, False, True] 1 3
       = Inr True
   \<and> (10::nat) ^ 1 \<le> length (init_B 10)
   \<and> (\<exists>B''. fill_B [''Hello World''] (init_B 10) 1 3 = (None, B''))"
  using bloom_no_false_negatives [of "[''Hello World'']" "init_B 10" 1 3
      "[False, False, True, False, False, False, True, False, False, True]"]
  by (simp add: fill_Hello_World check_key_def upt_1_4 del: fill_B.simps)

section \<open>Counting Bloom filter: counters and slices\<close>

lemma bits_value_snoc: "bits_value (c @ [b]) = 2 * bits_value c + (if b then 1 else 0)"
  by (simp add: bits_value_def)

lemma bits_value_zeros: "bits_value (replicate k False @ c) = bits_value c"
proof -
  have "foldl (\<lambda>n b. 2 * n + (if b then 1 else 0)) (0::int) (replicate k False) = 0"
    by (induction k) simp_all
  then show ?thesis by (simp add: bits_value_def)
qed

lemma bits_value_bin_digits: "bits_value (bin_digits n) = int n"
proof (induction n rule: bin_digits.induct)
  case (1 n)
  show ?case
  proof (cases "n < 2")
    case True
    then have "n = 0 \<or> n = 1" by auto
    then show ?thesis by (auto simp: bin_digits.simps [of n] bits_value_def)
  next
    case False
    with 1 have "bits_value (bin_digits (n div 2)) = int (n div 2)" by simp
    with False show ?thesis
      by (simp add: bin_digits.simps [of n] bits_value_snoc) presburger
  qed
qed

lemma length_bin_digits: "n < 2 ^ w \<Longrightarrow> 0 < w \<Longrightarrow> length (bin_digits n) \<le> w"
proof (induction n arbitrary: w rule: bin_digits.induct)
  case (1 n)
  show ?case
  proof (cases "n < 2")
    case True
    with 1 show ?thesis by (simp add: bin_digits.simps [of n])
  next
    case False
    with "1.prems" have "1 < w"
      by (metis One_nat_def Suc_lessI not_less_eq power_one_right)
    then obtain w' where w: "w = Suc w'" "0 < w'" by (cases w) auto
    with "1.prems" have "n div 2 < 2 ^ w'" by auto
    from "1.IH" [OF False this w(2)] w False show ?thesis
      by (simp add: bin_digits.simps [of n])
  qed
qed

lemma length_format_0b: "0 \<le> v \<Longrightarrow> v < 2 ^ w \<Longrightarrow> 0 < w \<Longrightarrow> length (format_0b w v) = w"
proof -
  assume v: "0 \<le> v" "v < 2 ^ w" and w: "0 < w"
  from v have "nat v < 2 ^ w"
    by (metis nat_less_iff of_nat_numeral of_nat_power)
  from length_bin_digits [OF this w] show ?thesis by (simp add: format_0b_def)
qed

lemma bits_value_format_0b: "0 \<le> v \<Longrightarrow> bits_value (format_0b w v) = v"
  by (simp add: format_0b_def bits_value_zeros bits_value_bin_digits)

lemma bits_value_nonneg: "0 \<le> bits_value c"
proof (induction c rule: rev_induct)
  case Nil
  then show ?case by (simp add: bits_value_def)
next
  case (snoc b c)
  then show ?case by (simp add: bits_value_snoc)
qed

lemma length_py_slice: "b \<le> length xs \<Longrightarrow> length (py_slice xs a b) = b - a"
  by (simp add: py_slice_def)

lemma length_py_set_slice:
  "a \<le> b \<Longrightarrow> b \<le> length xs \<Longrightarrow> length c = b - a \<Longrightarrow>
     length (py_set_slice xs a b c) = length xs"
  by (simp add: py_set_slice_def max_def)

lemma nth_py_set_slice:
  "a \<le> b \<Longrightarrow> b \<le> length xs \<Longrightarrow> length c = b - a \<Longrightarrow> i < length xs \<Longrightarrow>
     py_set_slice xs a b c ! i = (if a \<le> i \<and> i < b then c ! (i - a) else xs ! i)"
  by (auto simp: py_set_slice_def max_def nth_append)

lemma nth_py_slice:
  "b \<le> length xs \<Longrightarrow> i < b - a \<Longrightarrow> py_slice xs a b ! i = xs ! (a + i)"
  by (simp add: py_slice_def)

lemma py_slice_set_same:
  "a \<le> b \<Longrightarrow> b \<le> length xs \<Longrightarrow> length c = b - a \<Longrightarrow>
     py_slice (py_set_slice xs a b c) a b = c"
  by (simp add: py_slice_def py_set_slice_def max_def)

lemma py_slice_set_other:
  assumes "a \<le> b" "b \<le> length xs" "length c = b - a" "a' \<le> b'" "b' \<le> length xs"
    and "b' \<le> a \<or> b \<le> a'"
  shows "py_slice (py_set_slice xs a b c) a' b' = py_slice xs a' b'"
proof (rule nth_equalityI)
  show "length (py_slice (py_set_slice xs a b c) a' b') = length (py_slice xs a' b')"
    using assms by (simp add: length_py_slice length_py_set_slice)
next
  fix i
  assume "i < length (py_slice (py_set_slice xs a b c) a' b')"
  with assms have i: "i < b' - a'"
    by (simp add: length_py_slice length_py_set_slice)
  with assms have "a' + i < length xs" by linarith
  with assms i show "py_slice (py_set_slice xs a b c) a' b' ! i = py_slice xs a' b' ! i"
    by (auto simp: nth_py_slice length_py_set_slice nth_py_set_slice)
qed

lemma slot_bound: "p < n \<Longrightarrow> p * w + w \<le> n * (w::nat)"
proof -
  assume "p < n"
  then have "Suc p \<le> n" by simp
  then have "Suc p * w \<le> n * w" by (rule mult_le_mono1)
  then show ?thesis by (simp add: add.commute)
qed

lemma slots_disjoint: "p \<noteq> q \<Longrightarrow> q * w + w \<le> p * w \<or> p * w + w \<le> q * (w::nat)"
proof -
  assume "p \<noteq> q"
  then consider "q < p" | "p < q" by linarith
  then show ?thesis
  proof cases
    case 1
    from slot_bound [OF this] show ?thesis by simp
  next
    case 2
    from slot_bound [OF this] show ?thesis by simp
  qed
qed

lemma update_counter_length:
  assumes "update_counter c w u = Inr c'" "length c \<le> w"
  shows "length c' = w"
proof -
  from assms(1) have ne: "c \<noteq> []"
    by (auto simp: update_counter_def ba2int_def split: if_splits)
  with assms(2) have w: "0 < w" by (cases c) auto
  define v where "v = (if u = ''inc'' then bits_value c + 1 else bits_value c - 1)"
  from assms(1) ne have "0 \<le> v" "v < 2 ^ w" "c' = format_0b w v"
    by (auto simp: update_counter_def ba2int_def v_def Let_def split: if_splits)
  with w show ?thesis by (simp add: length_format_0b)
qed

lemma update_counter_ok:
  assumes "c \<noteq> []" "0 \<le> bits_value c + d" "bits_value c + d < 2 ^ w"
    and "d = (if u = ''inc'' then 1 else - 1)"
  shows "update_counter c w u = Inr (format_0b w (bits_value c + d))"
  using assms by (auto simp: update_counter_def ba2int_def Let_def)

lemma update_counter_overflow:
  "c \<noteq> [] \<Longrightarrow> bits_value c + 1 = 2 ^ w \<Longrightarrow> update_counter c w ''inc'' = Inl CounterOverflow"
  using bits_value_nonneg [of c] by (auto simp: update_counter_def ba2int_def Let_def)

lemma update_counter_underflow:
  "c \<noteq> [] \<Longrightarrow> bits_value c = 0 \<Longrightarrow> update_counter c w ''dec'' = Inl CounterUnderflow"
  by (auto simp: update_counter_def ba2int_def Let_def)

lemma length_counter_at:
  "length B = n * w \<Longrightarrow> p < n \<Longrightarrow> length (counter_at B p w) = w"
  using slot_bound [of p n w] by (simp add: counter_at_def length_py_slice)

lemma length_set_counter_at:
  "length B = n * w \<Longrightarrow> p < n \<Longrightarrow> length c = w \<Longrightarrow> length (set_counter_at B p w c) = length B"
  using slot_bound [of p n w] by (simp add: set_counter_at_def length_py_set_slice)

lemma nth_set_counter_at:
  "length B = n * w \<Longrightarrow> p < n \<Longrightarrow> length c = w \<Longrightarrow> i < length B \<Longrightarrow>
     \<not> (p * w \<le> i \<and> i < p * w + w) \<Longrightarrow> set_counter_at B p w c ! i = B ! i"
  using slot_bound [of p n w] by (auto simp: set_counter_at_def nth_py_set_slice)

lemma counter_at_set_same:
  "length B = n * w \<Longrightarrow> p < n \<Longrightarrow> length c = w \<Longrightarrow> counter_at (set_counter_at B p w c) p w = c"
  using slot_bound [of p n w] by (simp add: set_counter_at_def counter_at_def py_slice_set_same)

lemma counter_at_set_other:
  assumes "length B = n * w" "p < n" "q < n" "p \<noteq> q" "length c = w"
  shows "counter_at (set_counter_at B p w c) q w = counter_at B q w"
  unfolding counter_at_def set_counter_at_def
  using assms slot_bound [of p n w] slot_bound [of q n w] slots_disjoint [of p q w]
  by (intro py_slice_set_other) auto

lemma update_key_loop_frame:
  assumes "length B = n * w" "\<forall>nr \<in> set nrs. h s nd nr < n"
    and "update_key_loop s nd w u nrs B = (r, B')"
  shows "length B' = length B \<and>
         (\<forall>i < length B. (\<forall>nr \<in> set nrs. \<not> (h s nd nr * w \<le> i \<and> i < h s nd nr * w + w))
             \<longrightarrow> B' ! i = B ! i)"
  using assms
proof (induction nrs arbitrary: B)
  case Nil
  then show ?case by simp
next
  case (Cons nr nrs)
  let ?p = "h s nd nr"
  let ?u = "if u = ''insert'' then ''inc'' else ''dec''"
  from Cons.prems have p: "?p < n" by simp
  show ?case
  proof (cases "update_counter (counter_at B ?p w) w ?u")
    case (Inl e)
    with Cons.prems show ?thesis by simp
  next
    case (Inr c)
    have "length (counter_at B ?p w) \<le> w"
      using length_counter_at [OF Cons.prems(1) p] by simp
    from update_counter_length [OF Inr this] have lc: "length c = w" .
    let ?B1 = "set_counter_at B ?p w c"
    have l1: "length ?B1 = length B"
      by (rule length_set_counter_at [OF Cons.prems(1) p lc])
    from Cons.prems Inr have run: "update_key_loop s nd w u nrs ?B1 = (r, B')" by simp
    have "length ?B1 = n * w" using l1 Cons.prems(1) by simp
    from Cons.IH [OF this _ run] Cons.prems(2)
    have IH: "length B' = length ?B1"
      "\<And>i. i < length ?B1 \<Longrightarrow> (\<forall>nr \<in> set nrs. \<not> (h s nd nr * w \<le> i \<and> i < h s nd nr * w + w))
          \<Longrightarrow> B' ! i = ?B1 ! i"
      by auto
    show ?thesis
    proof (intro conjI allI impI)
      show "length B' = length B" using IH(1) l1 by simp
    next
      fix i
      assume i: "i < length B"
        and out: "\<forall>nr' \<in> set (nr # nrs). \<not> (h s nd nr' * w \<le> i \<and> i < h s nd nr' * w + w)"
      then have "B' ! i = ?B1 ! i" using IH(2) l1 by simp
      also have "?B1 ! i = B ! i"
        using nth_set_counter_at [OF Cons.prems(1) p lc i] out by simp
      finally show "B' ! i = B ! i" .
    qed
  qed
qed

lemma update_key_loop_counts:
  assumes "length B = n * w" "0 < w" "distinct (map (h s nd) nrs)"
    and "\<forall>nr \<in> set nrs. h s nd nr < n"
    and "d = (if u = ''insert'' then 1 else - 1)"
    and "\<forall>nr \<in> set nrs. 0 \<le> cv B w (h s nd nr) + d \<and> cv B w (h s nd nr) + d < 2 ^ w"
  shows "\<exists>B'. update_key_loop s nd w u nrs B = (None, B') \<and> length B' = length B \<and>
           (\<forall>p < n. cv B' w p = cv B w p + (if p \<in> h s nd ` set nrs then d else 0))"
  using assms
proof (induction nrs arbitrary: B)
  case Nil
  then show ?case by simp
next
  case (Cons nr nrs)
  let ?p = "h s nd nr"
  let ?u = "if u = ''insert'' then ''inc'' else ''dec''"
  let ?c = "counter_at B ?p w"
  from Cons.prems have p: "?p < n" by simp
  have lc0: "length ?c = w" by (rule length_counter_at [OF Cons.prems(1) p])
  with Cons.prems(2) have ne: "?c \<noteq> []" by auto
  have d: "d = (if ?u = ''inc'' then 1 else - 1)" using Cons.prems(5) by simp
  from Cons.prems(6) have rng: "0 \<le> bits_value ?c + d" "bits_value ?c + d < 2 ^ w"
    by (simp_all add: cv_def)
  let ?c' = "format_0b w (bits_value ?c + d)"
  have upd: "update_counter ?c w ?u = Inr ?c'"
    by (rule update_counter_ok [OF ne rng d])
  have lc: "length ?c' = w" using rng Cons.prems(2) by (simp add: length_format_0b)
  let ?B1 = "set_counter_at B ?p w ?c'"
  have l1: "length ?B1 = length B" by (rule length_set_counter_at [OF Cons.prems(1) p lc])
  have same: "cv ?B1 w ?p = cv B w ?p + d"
    using counter_at_set_same [OF Cons.prems(1) p lc] rng(1)
    by (simp add: cv_def bits_value_format_0b)
  have other: "cv ?B1 w q = cv B w q" if "q < n" "q \<noteq> ?p" for q
    using counter_at_set_other [OF Cons.prems(1) p that(1) _ lc] that(2) by (simp add: cv_def)
  have notin: "?p \<notin> h s nd ` set nrs" using Cons.prems(3) by auto
  have pre: "\<forall>nr' \<in> set nrs. 0 \<le> cv ?B1 w (h s nd nr') + d \<and> cv ?B1 w (h s nd nr') + d < 2 ^ w"
  proof
    fix nr'
    assume m: "nr' \<in> set nrs"
    with notin have "h s nd nr' \<noteq> ?p" by (metis imageI)
    moreover from m Cons.prems(4) have "h s nd nr' < n" by simp
    ultimately have "cv ?B1 w (h s nd nr') = cv B w (h s nd nr')" by (simp add: other)
    with Cons.prems(6) m show "0 \<le> cv ?B1 w (h s nd nr') + d \<and> cv ?B1 w (h s nd nr') + d < 2 ^ w"
      by simp
  qed
  have "length ?B1 = n * w" using l1 Cons.prems(1) by simp
  from Cons.IH [OF this Cons.prems(2) _ _ Cons.prems(5) pre] Cons.prems(3,4)
  obtain B' where B': "update_key_loop s nd w u nrs ?B1 = (None, B')" "length B' = length ?B1"
    "\<forall>q < n. cv B' w q = cv ?B1 w q + (if q \<in> h s nd ` set nrs then d else 0)"
    by auto
  have run: "update_key_loop s nd w u (nr # nrs) B = (None, B')"
    using upd B'(1) by simp
  have "cv B' w q = cv B w q + (if q \<in> h s nd ` set (nr # nrs) then d else 0)" if "q < n" for q
  proof (cases "q = ?p")
    case True
    with B'(3) that notin same show ?thesis by simp
  next
    case False
    with B'(3) that other [OF that False] show ?thesis by auto
  qed
  with run B'(2) l1 show ?case by auto
qed

section \<open>Counting Bloom filter: frame of an update\<close>

lemma h_bound: "h s nd nr < 10 ^ nd"
  by (simp add: h_def)

lemmas counting_eval = insert_key_def delete_key_def update_key_def upt_1_4 init_counting_B_def
  replicate_numeral counter_at_def set_counter_at_def py_slice_def py_set_slice_def
  update_counter_def ba2int_def bits_value_def format_0b_def bin_digits.simps Let_def

lemma insert_Hello_World:
  "insert_key ''Hello World'' (init_counting_B 10 3) (Suc 0) 3 3 =
     (None, [False, False, False,  False, False, False,  False, False, True,
             False, False, False,  False, False, False,  False, False, False,
             False, False, True,   False, False, False,  False, False, False,
             False, False, True])"
  by (simp add: counting_eval)

text \<open>
  Claim C10. On a counter array of \<open>10 ^ num_digits\<close> buckets of \<open>bits_per_counter\<close> bits,
  an \<open>insert_key\<close> or \<open>delete_key\<close> that returns without an exception leaves the length
  of \<open>B\<close> at \<open>num_buckets * bits_per_counter\<close> and changes no bit outside the
  \<open>bits_per_counter\<close>-bit slices at the key's hashed positions; and \<open>update_counter\<close>,
  given a slice of at most \<open>bits_per_counter\<close> bits, returns exactly \<open>bits_per_counter\<close>
  bits.
\<close>

theorem counting_filter_frame:
  assumes "length B = 10 ^ num_digits * bits_per_counter"
    and "insert_key s B num_digits num_hash_functions bits_per_counter = (None, B')
       \<or> delete_key s B num_digits num_hash_functions bits_per_counter = (None, B')"
  shows "length B' = 10 ^ num_digits * bits_per_counter
       \<and> (\<forall>i < length B.
            (\<forall>nr \<in> {1..num_hash_functions}.
               \<not> (h s num_digits nr * bits_per_counter \<le> i
                  \<and> i < h s num_digits nr * bits_per_counter + bits_per_counter))
            \<longrightarrow> B' ! i = B ! i)
       \<and> (\<forall>c u c'. length c \<le> bits_per_counter \<and> update_counter c bits_per_counter u = Inr c'
            \<longrightarrow> length c' = bits_per_counter)"
proof -
  from assms(2) obtain u
    where run: "update_key_loop s num_digits bits_per_counter u [1..<num_hash_functions + 1] B = (None, B')"
    by (auto simp: insert_key_def delete_key_def update_key_def)
  have "\<forall>nr \<in> set [1..<num_hash_functions + 1]. h s num_digits nr < 10 ^ num_digits"
    by (simp add: h_bound)
  from update_key_loop_frame [OF assms(1) this run] assms(1)
  show ?thesis
    by (auto simp: update_counter_length)
qed

theorem counting_filter_frame_witness:
  "length (init_counting_B 10 3) = 10 ^ 1 * 3
   \<and> insert_key ''Hello World'' (init_counting_B 10 3) 1 3 3 =
       (None, [False, False, False,  False, False, False,  False, False, True,
               False, False, False,  False, False, False,  False, False, False,
               False, False, True,   False, False, False,  False, False, False,
               False, False, True])
   \<and> length [False, False, False,  False, False, False,  False, False, True,
             False, False, False,  False, False, False,  False, False, False,
             False, False, True,   False, False, False,  False, False, False,
             False, False, True] = 10 ^ 1 * 3"
proof -
  let ?B1 = "[False, False, False,  False, False, False,  False, False, True,
             False, False, False,  False, False, False,  False, False, False,
             False, False, True,   False, False, False,  False, False, False,
             False, False, True]"
  have len: "length (init_counting_B 10 3) = 10 ^ 1 * 3"
    by (simp add: init_counting_B_def)
  have ins: "insert_key ''Hello World'' (init_counting_B 10 3) 1 3 3 = (None, ?B1)"
    using insert_Hello_World by simp
  then have "insert_key ''Hello World'' (init_counting_B 10 3) 1 3 3 = (None, ?B1)
       \<or> delete_key ''Hello World'' (init_counting_B 10 3) 1 3 3 = (None, ?B1)" ..
  from counting_filter_frame [OF len this] have "length ?B1 = 10 ^ 1 * 3" by blast
  with len ins show ?thesis by blast
qed

section \<open>Counting Bloom filter: digests of the example keys\<close>

lemma sha1_chris_1:
  "sha1_int ''chris@comp.nus.edu.sg'' = 0xfcebbe4ecea04fdeb5d73db6919b0ac24b3c1f0a"
  by (simp add: sha1_eval del: sha1_w.simps sha1_step.simps add_state.simps)

lemma sha1_chris_2:
  "sha1_int ''chris@comp.nus.edu.sgchris@comp.nus.edu.sg'' = 0xc7d812f7ea5e88ffdac5bc798944542432af3e6a"
  by (simp add: sha1_eval del: sha1_w.simps sha1_step.simps add_state.simps)

lemma sha1_chris_3:
  "sha1_int ''chris@comp.nus.edu.sgchris@comp.nus.edu.sgchris@comp.nus.edu.sg'' =
     0x8e9adaa415a90b403e78b55ee0a41abe5708a253"
  by (simp add: sha1_eval del: sha1_w.simps sha1_step.simps add_state.simps)

lemma h_chris_1 [simp]:
  "h ''chris@comp.nus.edu.sg'' (Suc 0) (Suc 0) = 6"
  "h ''chris@comp.nus.edu.sg'' (Suc 0) 2 = 6"
  "h ''chris@comp.nus.edu.sg'' (Suc 0) 3 = 9"
  by (simp_all add: h_def str_mul_def replicate_numeral sha1_chris_1 sha1_chris_2 sha1_chris_3)

lemma sha1_alice_1:
  "sha1_int ''alice@gmail.com'' = 0x54182a020e140db814677b3ce36aeb58df5dd78c"
  by (simp add: sha1_eval del: sha1_w.simps sha1_step.simps add_state.simps)

lemma sha1_alice_2:
  "sha1_int ''alice@gmail.comalice@gmail.com'' = 0x267df30109830c590dccafdec11088276e80e5eb"
  by (simp add: sha1_eval del: sha1_w.simps sha1_step.simps add_state.simps)

lemma h_alice_1 [simp]:
  "h ''alice@gmail.com'' (Suc 0) (Suc 0) = 6"
  "h ''alice@gmail.com'' (Suc 0) 2 = 3"
  by (simp_all add: h_def str_mul_def replicate_numeral sha1_alice_1 sha1_alice_2)

lemma chris_insert_1:
  "insert_key ''chris@comp.nus.edu.sg'' (init_counting_B 10 3) (Suc 0) 3 3 =
     (None,
      [False, False, False,  False, False, False,  False, False, False,
      False, False, False,  False, False, False,  False, False, False,
      False, True, False,  False, False, False,  False, False, False,
      False, False, True])"
  by (simp add: counting_eval)

lemma chris_insert_2:
  "insert_key ''chris@comp.nus.edu.sg'' (
     [False, False, False,  False, False, False,  False, False, False,
      False, False, False,  False, False, False,  False, False, False,
      False, True, False,  False, False, False,  False, False, False,
      False, False, True]) (Suc 0) 3 3 =
     (None,
      [False, False, False,  False, False, False,  False, False, False,
      False, False, False,  False, False, False,  False, False, False,
      True, False, False,  False, False, False,  False, False, False,
      False, True, False])"
  by (simp add: counting_eval)

lemma chris_insert_3:
  "insert_key ''chris@comp.nus.edu.sg'' (
     [False, False, False,  False, False, False,  False, False, False,
      False, False, False,  False, False, False,  False, False, False,
      True, False, False,  False, False, False,  False, False, False,
      False, True, False]) (Suc 0) 3 3 =
     (None,
      [False, False, False,  False, False, False,  False, False, False,
      False, False, False,  False, False, False,  False, False, False,
      True, True, False,  False, False, False,  False, False, False,
      False, True, True])"
  by (simp add: counting_eval)

lemma chris_insert_4:
  "insert_key ''chris@comp.nus.edu.sg'' (
     [False, False, False,  False, False, False,  False, False, False,
      False, False, False,  False, False, False,  False, False, False,
      True, True, False,  False, False, False,  False, False, False,
      False, True, True]) (Suc 0) 3 3 =
     (Some CounterOverflow,
      [False, False, False,  False, False, False,  False, False, False,
      False, False, False,  False, False, False,  False, False, False,
      True, True, True,  False, False, False,  False, False, False,
      False, True, True])"
  by (simp add: counting_eval)

lemma chris_insert_5:
  "insert_key ''chris@comp.nus.edu.sg'' (
     [False, False, False,  False, False, False,  False, False, False,
      False, False, False,  False, False, False,  False, False, False,
      True, True, True,  False, False, False,  False, False, False,
      False, True, True]) (Suc 0) 3 3 =
     (Some CounterOverflow,
      [False, False, False,  False, False, False,  False, False, False,
      False, False, False,  False, False, False,  False, False, False,
      True, True, True,  False, False, False,  False, False, False,
      False, True, True])"
  by (simp add: counting_eval)

lemma alice_delete:
  "delete_key ''alice@gmail.com'' (
     [False, False, False,  False, False, False,  False, False, True,
      False, False, False,  False, False, False,  False, False, False,
      False, False, True,  False, False, False,  False, False, False,
      False, False, True]) (Suc 0) 3 3 =
     (Some CounterUnderflow,
      [False, False, False,  False, False, False,  False, False, True,
      False, False, False,  False, False, False,  False, False, False,
      False, False, False,  False, False, False,  False, False, False,
      False, False, True])"
  by (simp add: counting_eval)

lemma eight: "8 = Suc (Suc (Suc (Suc (Suc (Suc (Suc (Suc 0)))))))"
  by simp

section \<open>Counting Bloom filter: overflow and underflow\<close>

lemma cv_init: "cv (init_counting_B n w) w p = 0"
proof -
  have "counter_at (init_counting_B n w) p w = replicate (min w (n * w - p * w)) False"
    by (simp add: counter_at_def init_counting_B_def py_slice_def)
  then show ?thesis
    using bits_value_zeros [of _ "[]"] by (simp add: cv_def bits_value_def)
qed

lemma insert_repeat_append:
  "insert_repeat (m + m') s B nd k w =
     (case insert_repeat m s B nd k w of
        (rs, B1) \<Rightarrow> (case insert_repeat m' s B1 nd k w of (rs', B2) \<Rightarrow> (rs @ rs', B2)))"
  by (induction m arbitrary: B) (simp_all split: prod.splits)

lemma update_key_step:
  assumes "length B = 10 ^ nd * w" "0 < w" "distinct (map (h s nd) [1..<k + 1])"
    and "\<forall>nr \<in> {1..k}. cv B w (h s nd nr) = j"
    and "d = (if u = ''insert'' then 1 else - 1)"
    and "0 \<le> j + d" "j + d < 2 ^ w"
  shows "\<exists>B'. update_key s B nd k w u = (None, B') \<and> length B' = length B \<and>
           (\<forall>nr \<in> {1..k}. cv B' w (h s nd nr) = j + d)"
proof -
  have bnd: "\<forall>nr \<in> set [1..<k + 1]. h s nd nr < 10 ^ nd"
    by (simp add: h_bound)
  have rng: "\<forall>nr \<in> set [1..<k + 1]. 0 \<le> cv B w (h s nd nr) + d \<and> cv B w (h s nd nr) + d < 2 ^ w"
    using assms(4,6,7) by auto
  from update_key_loop_counts [OF assms(1,2,3) bnd assms(5) rng]
  obtain B' where B': "update_key_loop s nd w u [1..<k + 1] B = (None, B')" "length B' = length B"
    "\<forall>p < 10 ^ nd. cv B' w p = cv B w p + (if p \<in> h s nd ` set [1..<k + 1] then d else 0)"
    by blast
  have "cv B' w (h s nd nr) = j + d" if "nr \<in> {1..k}" for nr
  proof -
    from that have "nr \<in> set [1..<k + 1]" by auto
    then have mem: "h s nd nr \<in> h s nd ` set [1..<k + 1]" by (rule imageI)
    have "cv B' w (h s nd nr) =
            cv B w (h s nd nr) + (if h s nd nr \<in> h s nd ` set [1..<k + 1] then d else 0)"
      using B'(3) h_bound [of s nd nr] by blast
    also have "\<dots> = cv B w (h s nd nr) + d" using mem by (simp only: if_True)
    also have "cv B w (h s nd nr) = j" using assms(4) that by blast
    finally show ?thesis .
  qed
  with B'(1,2) show ?thesis by (auto simp: update_key_def)
qed

lemma update_key_first_fails:
  assumes "length B = 10 ^ nd * w" "0 < w" "0 < k"
    and "update_counter (counter_at B (h s nd 1) w) w (if u = ''insert'' then ''inc'' else ''dec'') = Inl e"
  shows "update_key s B nd k w u = (Some e, B)"
proof -
  from assms(3) have "[1..<k + 1] = 1 # [2..<k + 1]"
    using upt_conv_Cons [of 1 "k + 1"] by (simp add: numeral_2_eq_2)
  with assms(4) show ?thesis by (simp add: update_key_def)
qed

lemma counter_at_nonempty:
  "length B = 10 ^ nd * w \<Longrightarrow> 0 < w \<Longrightarrow> counter_at B (h s nd nr) w \<noteq> []"
  using length_counter_at [of B "10 ^ nd" w "h s nd nr"] h_bound [of s nd nr] by auto

lemma insert_repeat_ok:
  assumes "length B = 10 ^ nd * w" "0 < w" "distinct (map (h s nd) [1..<k + 1])"
    and "\<forall>nr \<in> {1..k}. cv B w (h s nd nr) = j" "0 \<le> j" "j + int m < 2 ^ w"
  shows "\<exists>B'. insert_repeat m s B nd k w = (replicate m None, B') \<and> length B' = length B \<and>
           (\<forall>nr \<in> {1..k}. cv B' w (h s nd nr) = j + int m)"
  using assms
proof (induction m arbitrary: B j)
  case 0
  then show ?case by simp
next
  case (Suc m)
  have "j + 1 < 2 ^ w" "0 \<le> j + 1" using Suc.prems(5,6) by auto
  from update_key_step [OF Suc.prems(1,2,3,4) _ this(2,1), of "''insert''"]
  obtain B1 where B1: "insert_key s B nd k w = (None, B1)" "length B1 = length B"
    "\<forall>nr \<in> {1..k}. cv B1 w (h s nd nr) = j + 1"
    by (auto simp: insert_key_def)
  have "length B1 = 10 ^ nd * w" using B1(2) Suc.prems(1) by simp
  from Suc.IH [OF this Suc.prems(2,3) B1(3)] Suc.prems(5,6)
  obtain B' where "insert_repeat m s B1 nd k w = (replicate m None, B')" "length B' = length B1"
    "\<forall>nr \<in> {1..k}. cv B' w (h s nd nr) = j + 1 + int m"
    by auto
  with B1 show ?case by auto
qed

text \<open>
  When the \<open>num_hash_functions \<ge> 1\<close> positions of a key are pairwise distinct, each insert
  adds one to each of its counters: the first seven of eight inserts return and the eighth
  raises, and a delete after one insert returns.
\<close>

lemma inserts_distinct_positions:
  assumes "0 < num_hash_functions"
    and "distinct (map (h s num_digits) [1..<num_hash_functions + 1])"
  shows "fst (insert_repeat 8 s (init_counting_B (10 ^ num_digits) 3) num_digits num_hash_functions 3)
           = replicate 7 None @ [Some CounterOverflow]
       \<and> (\<exists>B1 B2. insert_key s (init_counting_B (10 ^ num_digits) 3) num_digits num_hash_functions 3
                      = (None, B1)
                 \<and> delete_key s B1 num_digits num_hash_functions 3 = (None, B2)
                 \<and> delete_key s B2 num_digits num_hash_functions 3 = (Some CounterUnderflow, B2))"
proof
  let ?B0 = "init_counting_B (10 ^ num_digits) 3"
  let ?k = num_hash_functions
  let ?nd = num_digits
  have len0: "length ?B0 = 10 ^ ?nd * 3" by (simp add: init_counting_B_def)
  have zero: "\<forall>nr \<in> {1..?k}. cv ?B0 3 (h s ?nd nr) = 0" by (simp add: cv_init)
  have one: "1 \<in> {1..?k}" using assms(1) by simp
  show "fst (insert_repeat 8 s ?B0 ?nd ?k 3) = replicate 7 None @ [Some CounterOverflow]"
  proof -
    from insert_repeat_ok [OF len0 _ assms(2) zero, of 7]
    obtain B7 where B7: "insert_repeat 7 s ?B0 ?nd ?k 3 = (replicate 7 None, B7)"
      "length B7 = length ?B0" "\<forall>nr \<in> {1..?k}. cv B7 3 (h s ?nd nr) = 7"
      by auto
    have l7: "length B7 = 10 ^ ?nd * 3" using B7(2) len0 by simp
    have "bits_value (counter_at B7 (h s ?nd 1) 3) + 1 = 2 ^ 3"
      using B7(3) one by (simp add: cv_def)
    from update_counter_overflow [OF counter_at_nonempty [OF l7] this]
    have "update_counter (counter_at B7 (h s ?nd 1) 3) 3 ''inc'' = Inl CounterOverflow" by simp
    from update_key_first_fails [OF l7 _ assms(1), of s "''insert''" CounterOverflow] this
    have "insert_key s B7 ?nd ?k 3 = (Some CounterOverflow, B7)"
      by (simp add: insert_key_def)
    then have "insert_repeat 1 s B7 ?nd ?k 3 = ([Some CounterOverflow], B7)" by simp
    with B7(1) insert_repeat_append [of 7 1 s ?B0 ?nd ?k 3] show ?thesis by simp
  qed
next
  let ?B0 = "init_counting_B (10 ^ num_digits) 3"
  let ?k = num_hash_functions
  let ?nd = num_digits
  have len0: "length ?B0 = 10 ^ ?nd * 3" by (simp add: init_counting_B_def)
  have zero: "\<forall>nr \<in> {1..?k}. cv ?B0 3 (h s ?nd nr) = 0" by (simp add: cv_init)
  have one: "1 \<in> {1..?k}" using assms(1) by simp
  from update_key_step [OF len0 _ assms(2) zero, of 1 "''insert''"]
  obtain B1 where B1: "insert_key s ?B0 ?nd ?k 3 = (None, B1)" "length B1 = length ?B0"
    "\<forall>nr \<in> {1..?k}. cv B1 3 (h s ?nd nr) = 1"
    by (auto simp: insert_key_def)
  have l1: "length B1 = 10 ^ ?nd * 3" using B1(2) len0 by simp
  from update_key_step [OF l1 _ assms(2) B1(3), of "- 1" "''delete''"]
  obtain B2 where B2: "delete_key s B1 ?nd ?k 3 = (None, B2)" "length B2 = length B1"
    "\<forall>nr \<in> {1..?k}. cv B2 3 (h s ?nd nr) = 0"
    by (auto simp: delete_key_def)
  have l2: "length B2 = 10 ^ ?nd * 3" using B2(2) l1 by simp
  have "bits_value (counter_at B2 (h s ?nd 1) 3) = 0"
    using B2(3) one by (simp add: cv_def)
  from update_counter_underflow [OF counter_at_nonempty [OF l2] this]
  have "update_counter (counter_at B2 (h s ?nd 1) 3) 3 ''dec'' = Inl CounterUnderflow" by simp
  from update_key_first_fails [OF l2 _ assms(1), of s "''delete''" CounterUnderflow] this
  have "delete_key s B2 ?nd ?k 3 = (Some CounterUnderflow, B2)"
    by (simp add: delete_key_def)
  with B1(1) B2(1)
  show "\<exists>B1 B2. insert_key s ?B0 ?nd ?k 3 = (None, B1) \<and> delete_key s B1 ?nd ?k 3 = (None, B2)
          \<and> delete_key s B2 ?nd ?k 3 = (Some CounterUnderflow, B2)"
    by blast
qed

text \<open>
  Positions of one key may coincide (the notebook: \<^verbatim>\<open>it can be less than k positions\<close>).
  Its key \<^verbatim>\<open>chris@comp.nus.edu.sg\<close> hashes to the buckets 6, 6 and 9 (one digit, three
  hash functions), every insert adds two to counter 6, and the fourth insert is the first to
  raise.
\<close>

lemma inserts_colliding_positions:
  "fst (insert_repeat 8 ''chris@comp.nus.edu.sg'' (init_counting_B 10 3) 1 3 3) =
     [None, None, None, Some CounterOverflow, Some CounterOverflow, Some CounterOverflow,
      Some CounterOverflow, Some CounterOverflow]"
  by (subst eight)
     (simp add: chris_insert_1 chris_insert_2 chris_insert_3 chris_insert_4 chris_insert_5)

text \<open>
  Whatever the positions: the counter of the first position goes up by at least one with
  every insert that does not find it at the maximum, and no insert lowers a counter.
\<close>

lemma bits_value_bound: "bits_value c < 2 ^ length c"
proof (induction c rule: rev_induct)
  case Nil
  then show ?case by (simp add: bits_value_def)
next
  case (snoc b c)
  then show ?case by (simp add: bits_value_snoc)
qed

lemma cv_bound: "length B = n * w \<Longrightarrow> p < n \<Longrightarrow> cv B w p < 2 ^ w"
  using bits_value_bound [of "counter_at B p w"] length_counter_at [of B n w p]
  by (simp add: cv_def)

lemma cv_nonneg: "0 \<le> cv B w p"
  by (simp add: cv_def bits_value_nonneg)

lemma update_counter_value:
  assumes "update_counter c w u = Inr c'"
  shows "bits_value c' = bits_value c + (if u = ''inc'' then 1 else - 1)"
  using assms
  by (auto simp: update_counter_def ba2int_def Let_def bits_value_format_0b split: if_splits)

lemma set_counter_at_cv:
  assumes "length B = n * w" "p < n" "length c = w" "q < n"
  shows "cv (set_counter_at B p w c) w q = (if q = p then bits_value c else cv B w q)"
proof (cases "q = p")
  case True
  with counter_at_set_same [OF assms(1,2,3)] show ?thesis by (simp add: cv_def)
next
  case False
  then have "p \<noteq> q" by simp
  from counter_at_set_other [OF assms(1,2,4) this assms(3)] False show ?thesis
    by (simp add: cv_def)
qed

lemma update_key_loop_insert_mono:
  assumes "length B = n * w" "\<forall>nr \<in> set nrs. h s nd nr < n"
    and "update_key_loop s nd w ''insert'' nrs B = (r, B')"
  shows "length B' = length B \<and> (\<forall>q < n. cv B w q \<le> cv B' w q)"
  using assms
proof (induction nrs arbitrary: B)
  case Nil
  then show ?case by simp
next
  case (Cons nr nrs)
  let ?p = "h s nd nr"
  from Cons.prems have p: "?p < n" by simp
  show ?case
  proof (cases "update_counter (counter_at B ?p w) w ''inc''")
    case (Inl e)
    with Cons.prems show ?thesis by simp
  next
    case (Inr c)
    have "length (counter_at B ?p w) \<le> w"
      using length_counter_at [OF Cons.prems(1) p] by simp
    from update_counter_length [OF Inr this] have lc: "length c = w" .
    let ?B1 = "set_counter_at B ?p w c"
    have l1: "length ?B1 = length B"
      by (rule length_set_counter_at [OF Cons.prems(1) p lc])
    from Cons.prems Inr have run: "update_key_loop s nd w ''insert'' nrs ?B1 = (r, B')" by simp
    have l1': "length ?B1 = n * w" using l1 Cons.prems(1) by simp
    from Cons.IH [OF l1' _ run] Cons.prems(2)
    have IH: "length B' = length ?B1" "\<And>q. q < n \<Longrightarrow> cv ?B1 w q \<le> cv B' w q"
      by auto
    have step: "cv B w q \<le> cv ?B1 w q" if "q < n" for q
      using set_counter_at_cv [OF Cons.prems(1) p lc that] update_counter_value [OF Inr]
      by (simp add: cv_def)
    have "cv B w q \<le> cv B' w q" if "q < n" for q
      using step [OF that] IH(2) [OF that] by linarith
    with IH(1) l1 show ?thesis by simp
  qed
qed

lemma insert_key_first_counter:
  assumes "length B = 10 ^ nd * w" "0 < w" "0 < k"
    and "insert_key s B nd k w = (r, B')"
  shows "length B' = length B \<and> min (cv B w (h s nd 1) + 1) (2 ^ w - 1) \<le> cv B' w (h s nd 1)"
proof -
  let ?p = "h s nd 1"
  have p: "?p < 10 ^ nd" by (rule h_bound)
  from assms(3) have upt: "[1..<k + 1] = 1 # [2..<k + 1]"
    using upt_conv_Cons [of 1 "k + 1"] by (simp add: numeral_2_eq_2)
  have ne: "counter_at B ?p w \<noteq> []" by (rule counter_at_nonempty [OF assms(1,2)])
  have bnd: "cv B w ?p < 2 ^ w" by (rule cv_bound [OF assms(1) p])
  show ?thesis
  proof (cases "update_counter (counter_at B ?p w) w ''inc''")
    case (Inl e)
    with assms(4) upt have B': "B' = B" by (simp add: insert_key_def update_key_def)
    from Inl ne bits_value_nonneg [of "counter_at B ?p w"] have "2 ^ w \<le> cv B w ?p + 1"
      by (auto simp: update_counter_def ba2int_def Let_def cv_def split: if_splits)
    with bnd B' show ?thesis by simp
  next
    case (Inr c)
    have "length (counter_at B ?p w) \<le> w"
      using length_counter_at [OF assms(1) p] by simp
    from update_counter_length [OF Inr this] have lc: "length c = w" .
    let ?B1 = "set_counter_at B ?p w c"
    have l1: "length ?B1 = length B"
      by (rule length_set_counter_at [OF assms(1) p lc])
    have l1': "length ?B1 = 10 ^ nd * w" using l1 assms(1) by simp
    from assms(4) upt Inr have run: "update_key_loop s nd w ''insert'' [2..<k + 1] ?B1 = (r, B')"
      by (simp add: insert_key_def update_key_def)
    have "\<forall>nr \<in> set [2..<k + 1]. h s nd nr < 10 ^ nd" by (simp add: h_bound)
    from update_key_loop_insert_mono [OF l1' this run]
    have mono: "length B' = length ?B1" "cv ?B1 w ?p \<le> cv B' w ?p" using p by auto
    have "cv ?B1 w ?p = cv B w ?p + 1"
      using set_counter_at_cv [OF assms(1) p lc p] update_counter_value [OF Inr]
      by (simp add: cv_def)
    with mono l1 show ?thesis by simp
  qed
qed

lemma insert_repeat_first_counter:
  assumes "length B = 10 ^ nd * w" "0 < w" "0 < k"
    and "insert_repeat m s B nd k w = (rs, B')"
  shows "length B' = length B \<and> length rs = m
         \<and> min (cv B w (h s nd 1) + int m) (2 ^ w - 1) \<le> cv B' w (h s nd 1)"
  using assms
proof (induction m arbitrary: B rs B')
  case 0
  then show ?case by simp
next
  case (Suc m)
  obtain r B1 where B1: "insert_key s B nd k w = (r, B1)" by (cases "insert_key s B nd k w")
  obtain rs' B2 where B2: "insert_repeat m s B1 nd k w = (rs', B2)"
    by (cases "insert_repeat m s B1 nd k w")
  from Suc.prems(4) B1 B2 have eq: "rs = r # rs'" "B' = B2" by simp_all
  from insert_key_first_counter [OF Suc.prems(1,2,3) B1]
  have s1: "length B1 = length B" "min (cv B w (h s nd 1) + 1) (2 ^ w - 1) \<le> cv B1 w (h s nd 1)"
    by simp_all
  have "length B1 = 10 ^ nd * w" using s1(1) Suc.prems(1) by simp
  from Suc.IH [OF this Suc.prems(2,3) B2]
  have s2: "length B2 = length B1" "length rs' = m"
    "min (cv B1 w (h s nd 1) + int m) (2 ^ w - 1) \<le> cv B2 w (h s nd 1)"
    by simp_all
  from s1(2) s2(3) have "min (cv B w (h s nd 1) + int (Suc m)) (2 ^ w - 1) \<le> cv B2 w (h s nd 1)"
    by (simp add: min_def split: if_splits)
  with s1(1) s2(1,2) eq show ?case by simp
qed

lemma eighth_insert_raises:
  assumes "0 < k"
  shows "length (fst (insert_repeat 8 s (init_counting_B (10 ^ nd) 3) nd k 3)) = 8
       \<and> fst (insert_repeat 8 s (init_counting_B (10 ^ nd) 3) nd k 3) ! 7 = Some CounterOverflow"
proof -
  let ?B0 = "init_counting_B (10 ^ nd) 3"
  have len0: "length ?B0 = 10 ^ nd * 3" by (simp add: init_counting_B_def)
  obtain rs B7 where B7: "insert_repeat 7 s ?B0 nd k 3 = (rs, B7)"
    by (cases "insert_repeat 7 s ?B0 nd k 3")
  from insert_repeat_first_counter [OF len0 _ assms B7]
  have f: "length B7 = length ?B0" "length rs = 7" "min (cv ?B0 3 (h s nd 1) + int 7) (2 ^ 3 - 1) \<le> cv B7 3 (h s nd 1)"
    by simp_all
  have l7: "length B7 = 10 ^ nd * 3" using f(1) len0 by simp
  from f(3) have "7 \<le> cv B7 3 (h s nd 1)" by (simp add: cv_init)
  moreover have "cv B7 3 (h s nd 1) < 2 ^ 3" by (rule cv_bound [OF l7 h_bound])
  ultimately have "bits_value (counter_at B7 (h s nd 1) 3) + 1 = 2 ^ 3" by (simp add: cv_def)
  from update_counter_overflow [OF counter_at_nonempty [OF l7] this]
  have "update_counter (counter_at B7 (h s nd 1) 3) 3 ''inc'' = Inl CounterOverflow" by simp
  from update_key_first_fails [OF l7 _ assms, of s "''insert''" CounterOverflow] this
  have "insert_key s B7 nd k 3 = (Some CounterOverflow, B7)"
    by (simp add: insert_key_def)
  then have "insert_repeat 1 s B7 nd k 3 = ([Some CounterOverflow], B7)" by simp
  with B7 insert_repeat_append [of 7 1 s ?B0 nd k 3]
  have "fst (insert_repeat 8 s ?B0 nd k 3) = rs @ [Some CounterOverflow]" by simp
  with f(2) show ?thesis by (simp add: nth_append)
qed

lemma update_key_loop_success_counts:
  assumes "length B = n * w" "\<forall>nr \<in> set nrs. h s nd nr < n"
    and "d = (if u = ''insert'' then 1 else - 1)"
    and "update_key_loop s nd w u nrs B = (None, B')"
  shows "length B' = length B \<and>
         (\<forall>q < n. cv B' w q = cv B w q + d * int (count_list (map (h s nd) nrs) q))"
  using assms
proof (induction nrs arbitrary: B)
  case Nil
  then show ?case by simp
next
  case (Cons nr nrs)
  let ?p = "h s nd nr"
  let ?u = "if u = ''insert'' then ''inc'' else ''dec''"
  from Cons.prems have p: "?p < n" by simp
  show ?case
  proof (cases "update_counter (counter_at B ?p w) w ?u")
    case (Inl e)
    with Cons.prems show ?thesis by simp
  next
    case (Inr c)
    have "length (counter_at B ?p w) \<le> w"
      using length_counter_at [OF Cons.prems(1) p] by simp
    from update_counter_length [OF Inr this] have lc: "length c = w" .
    let ?B1 = "set_counter_at B ?p w c"
    have l1: "length ?B1 = length B"
      by (rule length_set_counter_at [OF Cons.prems(1) p lc])
    from Cons.prems Inr have run: "update_key_loop s nd w u nrs ?B1 = (None, B')" by simp
    have l1': "length ?B1 = n * w" using l1 Cons.prems(1) by simp
    from Cons.IH [OF l1' _ Cons.prems(3) run] Cons.prems(2)
    have IH: "length B' = length ?B1"
      "\<And>q. q < n \<Longrightarrow> cv B' w q = cv ?B1 w q + d * int (count_list (map (h s nd) nrs) q)"
      by auto
    have vc: "bits_value c = cv B w ?p + d"
      using update_counter_value [OF Inr] Cons.prems(3) by (simp add: cv_def)
    have "cv B' w q = cv B w q + d * int (count_list (map (h s nd) (nr # nrs)) q)" if "q < n" for q
      using IH(2) [OF that] set_counter_at_cv [OF Cons.prems(1) p lc that] vc
      by (simp add: algebra_simps)
    with IH(1) l1 show ?thesis by simp
  qed
qed

lemma update_key_loop_succeeds:
  assumes "length B = n * w" "0 < w" "\<forall>nr \<in> set nrs. h s nd nr < n"
    and "d = (if u = ''insert'' then 1 else - 1)"
    and "\<forall>q < n. 0 \<le> cv B w q + d * int (count_list (map (h s nd) nrs) q)
               \<and> cv B w q + d * int (count_list (map (h s nd) nrs) q) < 2 ^ w"
  shows "\<exists>B'. update_key_loop s nd w u nrs B = (None, B')"
  using assms
proof (induction nrs arbitrary: B)
  case Nil
  then show ?case by simp
next
  case (Cons nr nrs)
  let ?p = "h s nd nr"
  let ?u = "if u = ''insert'' then ''inc'' else ''dec''"
  let ?c = "counter_at B ?p w"
  let ?m = "int (count_list (map (h s nd) nrs) ?p)"
  from Cons.prems have p: "?p < n" by simp
  have lc0: "length ?c = w" by (rule length_counter_at [OF Cons.prems(1) p])
  with Cons.prems(2) have ne: "?c \<noteq> []" by auto
  have d: "d = (if ?u = ''inc'' then 1 else - 1)" using Cons.prems(4) by simp
  have d1: "d = 1 \<or> d = - 1" using Cons.prems(4) by simp
  have v: "0 \<le> cv B w ?p" "cv B w ?p < 2 ^ w"
    using cv_nonneg cv_bound [OF Cons.prems(1) p] by simp_all
  from Cons.prems(5) p
  have "0 \<le> cv B w ?p + d * int (count_list (map (h s nd) (nr # nrs)) ?p)
        \<and> cv B w ?p + d * int (count_list (map (h s nd) (nr # nrs)) ?p) < 2 ^ w"
    by blast
  then have fin: "0 \<le> cv B w ?p + d * (?m + 1)" "cv B w ?p + d * (?m + 1) < 2 ^ w"
    by (simp_all add: add.commute)
  have m0: "0 \<le> ?m" by simp
  have rng: "0 \<le> bits_value ?c + d" "bits_value ?c + d < 2 ^ w"
  proof -
    from d1 show "0 \<le> bits_value ?c + d"
    proof
      assume "d = 1" with v(1) show ?thesis by (simp add: cv_def)
    next
      assume "d = - 1" with fin(1) m0 show ?thesis by (simp add: cv_def)
    qed
    from d1 show "bits_value ?c + d < 2 ^ w"
    proof
      assume "d = 1" with fin(2) m0 show ?thesis by (simp add: cv_def)
    next
      assume "d = - 1" with v(2) show ?thesis by (simp add: cv_def)
    qed
  qed
  let ?c' = "format_0b w (bits_value ?c + d)"
  have upd: "update_counter ?c w ?u = Inr ?c'"
    by (rule update_counter_ok [OF ne rng d])
  have lc: "length ?c' = w" using rng Cons.prems(2) by (simp add: length_format_0b)
  let ?B1 = "set_counter_at B ?p w ?c'"
  have l1: "length ?B1 = length B" by (rule length_set_counter_at [OF Cons.prems(1) p lc])
  have l1': "length ?B1 = n * w" using l1 Cons.prems(1) by simp
  have vc: "bits_value ?c' = cv B w ?p + d"
    using rng(1) by (simp add: bits_value_format_0b cv_def)
  have pre: "\<forall>q < n. 0 \<le> cv ?B1 w q + d * int (count_list (map (h s nd) nrs) q)
               \<and> cv ?B1 w q + d * int (count_list (map (h s nd) nrs) q) < 2 ^ w"
  proof (intro allI impI)
    fix q
    assume q: "q < n"
    have "cv ?B1 w q + d * int (count_list (map (h s nd) nrs) q)
            = cv B w q + d * int (count_list (map (h s nd) (nr # nrs)) q)"
      using set_counter_at_cv [OF Cons.prems(1) p lc q] vc by (simp add: algebra_simps)
    with Cons.prems(5) q
    show "0 \<le> cv ?B1 w q + d * int (count_list (map (h s nd) nrs) q)
               \<and> cv ?B1 w q + d * int (count_list (map (h s nd) nrs) q) < 2 ^ w"
      by simp
  qed
  from Cons.IH [OF l1' Cons.prems(2) _ Cons.prems(4) pre] Cons.prems(3)
  obtain B' where "update_key_loop s nd w u nrs ?B1 = (None, B')" by auto
  with upd show ?case by simp
qed

text \<open>
  An insert adds, to every counter, the number of positions it has gone through that fall on
  the counter: all of them if it returns, those before the overflow if it raises. A delete
  that follows takes them off again; it returns in the first case and raises at the position
  of the overflow in the second.
\<close>

lemma update_key_loop_append:
  "update_key_loop s nd w u (P @ R) B =
     (case update_key_loop s nd w u P B of
        (None, B') \<Rightarrow> update_key_loop s nd w u R B'
      | (Some e, B') \<Rightarrow> (Some e, B'))"
proof (induction P arbitrary: B)
  case Nil
  then show ?case by simp
next
  case (Cons nr P)
  show ?case
  proof (cases "update_counter (counter_at B (h s nd nr) w) w (if u = ''insert'' then ''inc'' else ''dec'')")
    case (Inl e)
    then show ?thesis by simp
  next
    case (Inr c)
    with Cons.IH show ?thesis by simp
  qed
qed

lemma update_key_loop_insert_prefix:
  assumes "length B = n * w" "0 < w" "\<forall>nr \<in> set nrs. h s nd nr < n"
    and "update_key_loop s nd w ''insert'' nrs B = (r, B1)"
  shows "\<exists>P R. nrs = P @ R \<and> length B1 = length B
           \<and> (\<forall>q < n. cv B1 w q = cv B w q + int (count_list (map (h s nd) P) q))
           \<and> r = (if R = [] then None else Some CounterOverflow)"
  using assms
proof (induction nrs arbitrary: B)
  case Nil
  then show ?case by simp
next
  case (Cons nr nrs)
  let ?p = "h s nd nr"
  let ?c = "counter_at B ?p w"
  from Cons.prems have p: "?p < n" by simp
  have lc0: "length ?c = w" by (rule length_counter_at [OF Cons.prems(1) p])
  with Cons.prems(2) have ne: "?c \<noteq> []" by auto
  show ?case
  proof (cases "update_counter ?c w ''inc''")
    case (Inl e)
    from Inl ne bits_value_nonneg [of ?c] have "e = CounterOverflow"
      by (auto simp: update_counter_def ba2int_def Let_def split: if_splits)
    with Inl Cons.prems(4) have "r = Some CounterOverflow" "B1 = B" by simp_all
    then show ?thesis
      by (intro exI [of _ "[]"] exI [of _ "nr # nrs"]) simp
  next
    case (Inr c)
    have "length ?c \<le> w" using lc0 by simp
    from update_counter_length [OF Inr this] have lc: "length c = w" .
    let ?B' = "set_counter_at B ?p w c"
    have l1: "length ?B' = length B" by (rule length_set_counter_at [OF Cons.prems(1) p lc])
    have l1': "length ?B' = n * w" using l1 Cons.prems(1) by simp
    from Cons.prems(4) Inr have run: "update_key_loop s nd w ''insert'' nrs ?B' = (r, B1)" by simp
    from Cons.IH [OF l1' Cons.prems(2) _ run] Cons.prems(3)
    obtain P R where PR: "nrs = P @ R" "length B1 = length ?B'"
      "\<forall>q < n. cv B1 w q = cv ?B' w q + int (count_list (map (h s nd) P) q)"
      "r = (if R = [] then None else Some CounterOverflow)"
      by auto
    have vc: "bits_value c = cv B w ?p + 1"
      using update_counter_value [OF Inr] by (simp add: cv_def)
    have "cv B1 w q = cv B w q + int (count_list (map (h s nd) (nr # P)) q)" if "q < n" for q
      using PR(3) that set_counter_at_cv [OF Cons.prems(1) p lc that] vc by simp
    with PR(1,2,4) l1 show ?thesis
      by (intro exI [of _ "nr # P"] exI [of _ R]) simp
  qed
qed

lemma insert_delete_delete:
  assumes "0 < k"
  shows "\<exists>r1 B1 r2 B2.
           insert_key s (init_counting_B (10 ^ nd) 3) nd k 3 = (r1, B1)
         \<and> delete_key s B1 nd k 3 = (r2, B2)
         \<and> r2 = (if r1 = None then None else Some CounterUnderflow)
         \<and> delete_key s B2 nd k 3 = (Some CounterUnderflow, B2)"
proof -
  let ?B0 = "init_counting_B (10 ^ nd) 3"
  let ?nrs = "[1..<k + 1]"
  let ?n = "(10::nat) ^ nd"
  have len0: "length ?B0 = ?n * 3" by (simp add: init_counting_B_def)
  have bnd: "\<forall>nr \<in> set ?nrs. h s nd nr < ?n" by (simp add: h_bound)
  obtain r1 B1 where run1: "update_key_loop s nd 3 ''insert'' ?nrs ?B0 = (r1, B1)"
    by (cases "update_key_loop s nd 3 ''insert'' ?nrs ?B0")
  from update_key_loop_insert_prefix [OF len0 _ bnd run1]
  obtain P R where PR: "?nrs = P @ R" "length B1 = length ?B0"
    "\<forall>q < ?n. cv B1 3 q = int (count_list (map (h s nd) P) q)"
    "r1 = (if R = [] then None else Some CounterOverflow)"
    by (auto simp: cv_init)
  have l1: "length B1 = ?n * 3" using PR(2) len0 by simp
  have bP: "\<forall>nr \<in> set P. h s nd nr < ?n" by (simp add: h_bound)
  have "\<forall>q < ?n. 0 \<le> cv B1 3 q + (- 1) * int (count_list (map (h s nd) P) q)
               \<and> cv B1 3 q + (- 1) * int (count_list (map (h s nd) P) q) < 2 ^ 3"
    using PR(3) by simp
  from update_key_loop_succeeds [OF l1 _ bP _ this, of "''delete''"]
  obtain B2 where runP: "update_key_loop s nd 3 ''delete'' P B1 = (None, B2)" by auto
  from update_key_loop_success_counts [OF l1 bP _ runP, of "- 1"]
  have B2: "length B2 = length B1" "\<And>q. q < ?n \<Longrightarrow> cv B2 3 q = 0"
    using PR(3) by simp_all
  have l2: "length B2 = ?n * 3" using B2(1) l1 by simp
  have under: "update_counter (counter_at B2 (h s nd nr) 3) 3 ''dec'' = Inl CounterUnderflow" for nr
  proof -
    have "bits_value (counter_at B2 (h s nd nr) 3) = 0"
      using B2(2) [OF h_bound] by (simp add: cv_def)
    from update_counter_underflow [OF counter_at_nonempty [OF l2] this] show ?thesis by simp
  qed
  have runR: "update_key_loop s nd 3 ''delete'' R B2
                = (if R = [] then None else Some CounterUnderflow, B2)"
    using under by (cases R) simp_all
  have run2: "update_key_loop s nd 3 ''delete'' ?nrs B1
                = (if r1 = None then None else Some CounterUnderflow, B2)"
    using runP runR PR(4) by (simp only: PR(1) update_key_loop_append) simp
  from update_key_first_fails [OF l2 _ assms, of s "''delete''" CounterUnderflow] under
  have "delete_key s B2 nd k 3 = (Some CounterUnderflow, B2)"
    by (simp add: delete_key_def)
  with run1 run2 show ?thesis by (simp add: insert_key_def delete_key_def update_key_def)
qed

text \<open>
  Claim C5, as amended. With \<open>num_hash_functions \<ge> 1\<close>, on an all-zero array of
  \<open>10 ^ num_digits\<close> three-bit counters, for every key: the eighth of eight successive
  \<open>insert_key\<close> calls raises the overflow exception; and after one \<open>insert_key\<close> call,
  the second of two \<open>delete_key\<close> calls raises the underflow exception, the first one
  returning if the insert returned (and raising the underflow exception if the insert
  raised).
\<close>

theorem counting_filter_error_triggering:
  assumes "0 < num_hash_functions"
  shows "length (fst (insert_repeat 8 s (init_counting_B (10 ^ num_digits) 3) num_digits
                        num_hash_functions 3)) = 8
       \<and> fst (insert_repeat 8 s (init_counting_B (10 ^ num_digits) 3) num_digits num_hash_functions 3) ! 7
           = Some CounterOverflow
       \<and> (\<exists>r1 B1 r2 B2.
             insert_key s (init_counting_B (10 ^ num_digits) 3) num_digits num_hash_functions 3
               = (r1, B1)
           \<and> delete_key s B1 num_digits num_hash_functions 3 = (r2, B2)
           \<and> r2 = (if r1 = None then None else Some CounterUnderflow)
           \<and> delete_key s B2 num_digits num_hash_functions 3 = (Some CounterUnderflow, B2))"
  using eighth_insert_raises [OF assms] insert_delete_delete [OF assms] by blast

theorem counting_filter_error_triggering_witness:
  "0 < (3::nat)
   \<and> length (fst (insert_repeat 8 ''chris@comp.nus.edu.sg'' (init_counting_B (10 ^ 1) 3) 1 3 3)) = 8
   \<and> fst (insert_repeat 8 ''chris@comp.nus.edu.sg'' (init_counting_B (10 ^ 1) 3) 1 3 3) ! 7
       = Some CounterOverflow
   \<and> (\<exists>B1 B2. insert_key ''chris@comp.nus.edu.sg'' (init_counting_B (10 ^ 1) 3) 1 3 3 = (None, B1)
            \<and> delete_key ''chris@comp.nus.edu.sg'' B1 1 3 3 = (None, B2)
            \<and> delete_key ''chris@comp.nus.edu.sg'' B2 1 3 3 = (Some CounterUnderflow, B2))"
proof -
  have k: "0 < (3::nat)" by simp
  from counting_filter_error_triggering [OF k, of "''chris@comp.nus.edu.sg''" 1]
  obtain r1 B1 r2 B2 where
    e: "length (fst (insert_repeat 8 ''chris@comp.nus.edu.sg'' (init_counting_B (10 ^ 1) 3) 1 3 3)) = 8"
      "fst (insert_repeat 8 ''chris@comp.nus.edu.sg'' (init_counting_B (10 ^ 1) 3) 1 3 3) ! 7
          = Some CounterOverflow"
    and i: "insert_key ''chris@comp.nus.edu.sg'' (init_counting_B (10 ^ 1) 3) 1 3 3 = (r1, B1)"
    and d: "delete_key ''chris@comp.nus.edu.sg'' B1 1 3 3 = (r2, B2)"
      "r2 = (if r1 = None then None else Some CounterUnderflow)"
      "delete_key ''chris@comp.nus.edu.sg'' B2 1 3 3 = (Some CounterUnderflow, B2)"
    by blast
  from i chris_insert_1 have "r1 = None" by simp
  with i d have "insert_key ''chris@comp.nus.edu.sg'' (init_counting_B (10 ^ 1) 3) 1 3 3 = (None, B1)
    \<and> delete_key ''chris@comp.nus.edu.sg'' B1 1 3 3 = (None, B2)
    \<and> delete_key ''chris@comp.nus.edu.sg'' B2 1 3 3 = (Some CounterUnderflow, B2)"
    by simp
  with k e show ?thesis by blast
qed

text \<open>
  Claim C5 as stated, for every configuration, fails with no hash function at all
  (\<open>num_hash_functions = 0\<close>): \<open>update_key\<close> then loops over an empty range, no counter is
  touched, none of eight inserts raises, and after one insert both deletes return.
\<close>

theorem insert_8_times_counterexample:
  "fst (insert_repeat 8 ''chris@comp.nus.edu.sg'' (init_counting_B 10 3) 1 0 3) =
     [None, None, None, None, None, None, None, None]
   \<and> insert_key ''chris@comp.nus.edu.sg'' (init_counting_B 10 3) 1 0 3
       = (None, init_counting_B 10 3)
   \<and> delete_key ''chris@comp.nus.edu.sg'' (init_counting_B 10 3) 1 0 3
       = (None, init_counting_B 10 3)"
proof -
  have "insert_key s B nd 0 w = (None, B)" for s B nd w
    by (simp add: insert_key_def update_key_def)
  moreover have "delete_key s B nd 0 w = (None, B)" for s B nd w
    by (simp add: delete_key_def update_key_def)
  ultimately show ?thesis by (subst eight) simp
qed

section \<open>Counting Bloom filter: a failed update is not rolled back\<close>

text \<open>
  Claim C1 at a failing input. After \<^verbatim>\<open>Hello World\<close> (buckets 2, 6, 9) has been inserted
  into an empty filter, deleting \<^verbatim>\<open>alice@gmail.com\<close> (buckets 6, 3, 2) decrements
  counter 6, then raises the underflow exception at counter 3: \<open>B\<close> is left with counter 6
  at zero, not as it was before the call.
\<close>

theorem delete_key_partial_update:
  "insert_key ''Hello World'' (init_counting_B 10 3) 1 3 3 =
     (None,
      [False, False, False,  False, False, False,  False, False, True,
       False, False, False,  False, False, False,  False, False, False,
       False, False, True,  False, False, False,  False, False, False,
       False, False, True])
   \<and> delete_key ''alice@gmail.com''
       [False, False, False,  False, False, False,  False, False, True,
        False, False, False,  False, False, False,  False, False, False,
        False, False, True,  False, False, False,  False, False, False,
        False, False, True] 1 3 3 =
     (Some CounterUnderflow,
      [False, False, False,  False, False, False,  False, False, True,
       False, False, False,  False, False, False,  False, False, False,
       False, False, False,  False, False, False,  False, False, False,
       False, False, True])
   \<and> cv [False, False, False,  False, False, False,  False, False, True,
        False, False, False,  False, False, False,  False, False, False,
        False, False, True,  False, False, False,  False, False, False,
        False, False, True] 3 6 = 1
   \<and> cv [False, False, False,  False, False, False,  False, False, True,
        False, False, False,  False, False, False,  False, False, False,
        False, False, False,  False, False, False,  False, False, False,
        False, False, True] 3 6 = 0"
  using insert_Hello_World alice_delete
  by (simp add: cv_def counter_at_def py_slice_def bits_value_def)

section \<open>Reservoir sampling: size of the reservoir\<close>

lemma handle_new_item_length:
  "handle_new_item B raw t item R = Inr (d, R') \<Longrightarrow> length R' = length R"
  by (auto simp: handle_new_item_def split: if_splits sum.splits)

lemma handle_new_item_total:
  "0 < B \<Longrightarrow> length R = B \<Longrightarrow> \<exists>d R'. handle_new_item B raw t item R = Inr (d, R')"
  by (auto simp: handle_new_item_def np_randint_def split: sum.splits)

lemma reservoir_loop_inv:
  assumes "0 < B" "length R = B"
    and "\<forall>i < B. if i < min t B then R ! i \<in> S else R ! i = ''_''"
    and "set stream \<subseteq> S"
  shows "\<exists>R'. reservoir_loop B rng t stream R = Inr R' \<and> length R' = B \<and>
           (\<forall>i < B. if i < min (t + length stream) B then R' ! i \<in> S else R' ! i = ''_'')"
  using assms
proof (induction stream arbitrary: t R)
  case Nil
  then show ?case by simp
next
  case (Cons item stream)
  from handle_new_item_total [OF Cons.prems(1,2)] obtain d R1
    where step: "handle_new_item B (rng t) t item R = Inr (d, R1)" by blast
  have l1: "length R1 = B" using handle_new_item_length [OF step] Cons.prems(2) by simp
  have item: "item \<in> S" using Cons.prems(4) by simp
  have inv1: "\<forall>i < B. if i < min (t + 1) B then R1 ! i \<in> S else R1 ! i = ''_''"
  proof (cases "t < B")
    case True
    with step Cons.prems(2) have R1: "R1 = R[t := item]"
      by (auto simp: handle_new_item_def)
    show ?thesis
    proof (intro allI impI)
      fix i assume i: "i < B"
      show "if i < min (t + 1) B then R1 ! i \<in> S else R1 ! i = ''_''"
      proof (cases "i = t")
        case True
        with i R1 Cons.prems(2) item show ?thesis by simp
      next
        case False
        with i R1 Cons.prems(2,3) \<open>t < B\<close> show ?thesis
          by (auto simp: nth_list_update min_def split: if_splits)
      qed
    qed
  next
    case False
    then have full: "min t B = B" "min (t + 1) B = B" by auto
    from step False have "R1 = R \<or> (\<exists>pos < length R. R1 = R[pos := item])"
      by (auto simp: handle_new_item_def split: sum.splits if_splits)
    then show ?thesis
    proof
      assume "R1 = R"
      with Cons.prems(3) full show ?thesis by simp
    next
      assume "\<exists>pos < length R. R1 = R[pos := item]"
      then obtain pos where pos: "pos < length R" "R1 = R[pos := item]" by blast
      show ?thesis
      proof (intro allI impI)
        fix i assume i: "i < B"
        with Cons.prems(3) full have "R ! i \<in> S" by (auto split: if_splits)
        with pos i item Cons.prems(2) full
        show "if i < min (t + 1) B then R1 ! i \<in> S else R1 ! i = ''_''"
          by (simp add: nth_list_update)
      qed
    qed
  qed
  have "set stream \<subseteq> S" using Cons.prems(4) by simp
  from Cons.IH [OF Cons.prems(1) l1 inv1 this]
  obtain R' where "reservoir_loop B rng (t + 1) stream R1 = Inr R'" "length R' = B"
    "\<forall>i < B. if i < min (t + 1 + length stream) B then R' ! i \<in> S else R' ! i = ''_''"
    by blast
  with step show ?case by simp
qed

text \<open>
  Claim C6, as amended. For a capacity \<open>B \<ge> 1\<close> and a stream of any length \<open>N\<close>, the loop
  returns and the reservoir list has length exactly \<open>B\<close>: its first \<open>min N B\<close> slots hold
  items of the stream and the other slots still hold the placeholder \<^verbatim>\<open>'_'\<close>.
\<close>

theorem reservoir_length:
  assumes "0 < B"
  shows "\<exists>R. reservoir_sample B rng stream = Inr R \<and> length R = B \<and>
           (\<forall>i < B. if i < min (length stream) B then R ! i \<in> set stream else R ! i = ''_'')"
proof -
  have "\<forall>i < B. if i < min 0 B then replicate B ''_'' ! i \<in> set stream
                 else replicate B ''_'' ! i = ''_''" by simp
  from reservoir_loop_inv [OF assms _ this, of stream rng] show ?thesis
    by (simp add: reservoir_sample_def)
qed

theorem reservoir_length_witness:
  "(0::nat) < 2
   \<and> reservoir_sample 2 id [''a'', ''b'', ''c''] = Inr [''c'', ''b'']
   \<and> length [''c'', ''b''] = 2"
proof -
  have B: "(0::nat) < 2" by simp
  have run: "reservoir_sample 2 id [''a'', ''b'', ''c''] = Inr [''c'', ''b'']"
    by (simp add: reservoir_sample_def handle_new_item_def np_randint_def replicate_numeral)
  from reservoir_length [OF B, of id "[''a'', ''b'', ''c'']"] run
  have "length [''c'', ''b''] = 2" by auto
  with B run show ?thesis by blast
qed

text \<open>
  Claim C6 as stated fails while the reservoir is not full: after one item with capacity 2
  the list has length 2, not \<open>min 1 2 = 1\<close>, the second slot holding the placeholder.
\<close>

theorem reservoir_length_counterexample:
  "reservoir_sample 2 id [''a''] = Inr [''a'', ''_'']
   \<and> length [''a'', ''_''] \<noteq> min (length [''a'']) 2"
  by (simp add: reservoir_sample_def handle_new_item_def replicate_numeral)

section \<open>Reservoir sampling: the range of the draw\<close>

text \<open>
  For an item that arrives when the reservoir is full, at the 0-based index \<open>t\<close> that
  \<^verbatim>\<open>enumerate\<close> passes, the positions the draw can take are exactly \<open>0 .. t-1\<close>: with
  the current item counted, that is one value fewer than the number of items seen.
\<close>

lemma handle_new_item_positions:
  assumes "B \<le> t" "0 < t"
  shows "{pos. \<exists>raw d R'. handle_new_item B raw t item R = Inr (d, R') \<and> (d = Replaced pos \<or> d = Discarded pos)}
           = {0..<t}"
proof (intro set_eqI iffI)
  fix pos
  assume "pos \<in> {pos. \<exists>raw d R'. handle_new_item B raw t item R = Inr (d, R') \<and> (d = Replaced pos \<or> d = Discarded pos)}"
  then show "pos \<in> {0..<t}"
    using assms by (auto simp: handle_new_item_def np_randint_def split: if_splits)
next
  fix pos
  assume "pos \<in> {0..<t}"
  then have "pos < t" by simp
  then have "np_randint 0 t pos = Inr pos" by (simp add: np_randint_def)
  with assms show "pos \<in> {pos. \<exists>raw d R'. handle_new_item B raw t item R = Inr (d, R') \<and> (d = Replaced pos \<or> d = Discarded pos)}"
    by (auto simp: handle_new_item_def intro!: exI [of _ pos])
qed

text \<open>
  Claim C2 at a failing input. With capacity 1 and the first item in the reservoir, the
  second item (index 1) replaces it whatever the generator draws: the only value of
  \<^verbatim>\<open>np.random.randint(0, 1)\<close> is 0, where the claim has a draw from \<open>{0, 1}\<close> that
  discards the item at 1.
\<close>

theorem second_item_always_kept:
  "handle_new_item 1 raw 1 ''b'' [''a''] = Inr (Replaced 0, [''b''])"
  by (simp add: handle_new_item_def np_randint_def)

section \<open>Sampling based on keys: one decision per key\<close>

lemma accepts_iff:
  "b \<noteq> 0 \<Longrightarrow> accepts ip a b = Inr (int (sha1_int ip) mod b < a)"
  by (simp add: accepts_def h_buckets_def)

lemma sample_by_key_filter:
  assumes "b \<noteq> 0" "\<forall>line \<in> set f. length (split_comma line) = 2"
  shows "sample_by_key a b f SAMPLE =
           (None, SAMPLE @ filter (\<lambda>ip. accepts ip a b = Inr True) (map key_of f))"
  using assms
proof (induction f arbitrary: SAMPLE)
  case Nil
  then show ?case by simp
next
  case (Cons line f)
  from Cons.prems(2) have "length (split_comma line) = 2" by simp
  then obtain ip ts where sp: "split_comma line = [ip, ts]"
    by (cases "split_comma line" rule: list.exhaust) (auto simp: length_Suc_conv)
  then have k: "key_of line = ip" by (simp add: key_of_def)
  from Cons.prems have IH: "\<And>S. sample_by_key a b f S =
      (None, S @ filter (\<lambda>ip. accepts ip a b = Inr True) (map key_of f))"
    using Cons.IH by simp
  show ?case by (simp add: sp accepts_iff [OF Cons.prems(1)] k IH)
qed

lemma count_list_filter:
  "count_list (filter P xs) x = (if P x then count_list xs x else 0)"
  by (induction xs) auto

text \<open>
  Claim C7. For \<open>0 < a \<le> b\<close> the test accepts a key exactly when its hash value
  \<open>h(key, b)\<close> is below \<open>a\<close>; the decision depends on the key alone, so over a stream of
  records \<^verbatim>\<open>ip,ts\<close> the sample holds every record of an accepted key and no record of a
  rejected one.
\<close>

theorem keyed_sampling_consistent:
  assumes "0 < a" "a \<le> b" "\<forall>line \<in> set f. length (split_comma line) = 2"
  shows "(\<exists>v. h_buckets key b = Inr v \<and> accepts key a b = Inr (v < a))
       \<and> (\<exists>SAMPLE. sample_by_key a b f [] = (None, SAMPLE)
             \<and> SAMPLE = filter (\<lambda>ip. accepts ip a b = Inr True) (map key_of f)
             \<and> count_list SAMPLE key =
                 (if accepts key a b = Inr True then count_list (map key_of f) key else 0))"
proof -
  from assms(1,2) have b: "b \<noteq> 0" by simp
  then have "h_buckets key b = Inr (int (sha1_int key) mod b)"
    by (simp add: h_buckets_def)
  moreover have "accepts key a b = Inr (int (sha1_int key) mod b < a)"
    by (rule accepts_iff [OF b])
  moreover have "sample_by_key a b f [] =
      (None, filter (\<lambda>ip. accepts ip a b = Inr True) (map key_of f))"
    using sample_by_key_filter [OF b assms(3), of a "[]"] by simp
  ultimately show ?thesis by (simp add: count_list_filter)
qed

lemma h_buckets_examples:
  "h_buckets ''Hello World'' 10 = Inr 2"
  "h_buckets ''chris@comp.nus.edu.sg'' 10 = Inr 6"
  by (simp_all add: h_buckets_def sha1_Hello_World_1 sha1_chris_1)

theorem keyed_sampling_consistent_witness:
  "(0::int) < 3 \<and> (3::int) \<le> 10
   \<and> length (split_comma ''Hello World,1'') = 2
   \<and> length (split_comma ''chris@comp.nus.edu.sg,2'') = 2
   \<and> length (split_comma ''Hello World,3'') = 2
   \<and> accepts ''Hello World'' 3 10 = Inr True
   \<and> sample_by_key 3 10 [''Hello World,1'', ''chris@comp.nus.edu.sg,2'', ''Hello World,3''] []
       = (None, [''Hello World'', ''Hello World''])
   \<and> count_list [''Hello World'', ''Hello World''] ''Hello World'' = 2"
proof -
  let ?f = "[''Hello World,1'', ''chris@comp.nus.edu.sg,2'', ''Hello World,3'']"
  have a: "(0::int) < 3" and ab: "(3::int) \<le> 10" by simp_all
  have sp: "length (split_comma ''Hello World,1'') = 2"
    "length (split_comma ''chris@comp.nus.edu.sg,2'') = 2"
    "length (split_comma ''Hello World,3'') = 2"
    by (simp_all add: split_comma_def)
  then have wf: "\<forall>line \<in> set ?f. length (split_comma line) = 2" by simp
  have acc: "accepts ''Hello World'' 3 10 = Inr True" "accepts ''chris@comp.nus.edu.sg'' 3 10 = Inr False"
    by (simp_all add: accepts_def h_buckets_examples)
  have keys: "key_of ''Hello World,1'' = ''Hello World''"
    "key_of ''chris@comp.nus.edu.sg,2'' = ''chris@comp.nus.edu.sg''"
    "key_of ''Hello World,3'' = ''Hello World''"
    by (simp_all add: key_of_def split_comma_def)
  from keyed_sampling_consistent [OF a ab wf, of "''Hello World''"]
  have "sample_by_key 3 10 ?f [] = (None, [''Hello World'', ''Hello World''])
      \<and> count_list [''Hello World'', ''Hello World''] ''Hello World'' = 2"
    by (simp add: keys acc del: sample_by_key.simps)
  with a ab sp acc(1) show ?thesis by blast
qed

section \<open>Distinct counting: the trailing-zero count\<close>

lemma and_neg_odd: "odd x \<Longrightarrow> x AND - x = 1" for x :: int
proof -
  assume o: "odd x"
  then have "odd (- x)" by simp
  have "(- x) div 2 = NOT (x div 2)"
    using o by (simp add: not_int_def) presburger
  then have "(x div 2) AND ((- x) div 2) = 0" by simp
  with o show ?thesis
    by (subst and_rec) simp
qed

lemma and_neg_double: "(2 * x) AND - (2 * x) = 2 * (x AND - x)" for x :: int
proof -
  have "(- (2 * x)) div 2 = - x" by simp
  then show ?thesis by (subst and_rec) simp
qed

lemma ilog2_double: "0 < n \<Longrightarrow> ilog2 (2 * n) = Suc (ilog2 n)"
  by (subst ilog2.simps) simp

lemma and_neg_pow2:
  "x \<noteq> 0 \<Longrightarrow> \<exists>r. x AND - x = 2 ^ r \<and> 2 ^ r dvd x \<and> \<not> 2 ^ Suc r dvd x" for x :: int
proof (induction "nat \<bar>x\<bar>" arbitrary: x rule: less_induct)
  case less
  show ?case
  proof (cases "odd x")
    case True
    then have "x AND - x = 2 ^ 0 \<and> 2 ^ 0 dvd x \<and> \<not> 2 ^ Suc 0 dvd x"
      by (simp add: and_neg_odd)
    then show ?thesis by blast
  next
    case False
    then obtain y where y: "x = 2 * y" by (auto elim: evenE)
    with less.prems have y0: "y \<noteq> 0" by simp
    with y have "nat \<bar>y\<bar> < nat \<bar>x\<bar>" by simp
    from less.hyps [OF this y0] obtain r
      where r: "y AND - y = 2 ^ r" "2 ^ r dvd y" "\<not> 2 ^ Suc r dvd y" by blast
    have "x AND - x = 2 ^ Suc r" using r(1) y by (simp add: and_neg_double)
    moreover have "2 ^ Suc r dvd x" using r(2) y by simp
    moreover have "\<not> 2 ^ Suc (Suc r) dvd x"
    proof
      assume "2 ^ Suc (Suc r) dvd x"
      then have "2 * 2 ^ Suc r dvd 2 * y" using y by simp
      then have "2 ^ Suc r dvd y" by (simp only: dvd_mult_cancel_left) simp
      with r(3) show False by simp
    qed
    ultimately show ?thesis by blast
  qed
qed

lemma ilog2_pow2: "ilog2 (2 ^ r) = r"
proof (induction r)
  case 0
  then show ?case by (simp add: ilog2.simps)
next
  case (Suc r)
  then show ?case using ilog2_double [of "2 ^ r"] by simp
qed

lemma get_r_trailing_zeros:
  assumes "x \<noteq> 0" "\<bar>x\<bar> < 2 ^ 64"
  shows "\<exists>r. get_r x = Inr r \<and> 2 ^ r dvd x \<and> \<not> 2 ^ Suc r dvd x"
proof -
  from and_neg_pow2 [OF assms(1)] obtain r
    where r: "x AND - x = 2 ^ r" "2 ^ r dvd x" "\<not> 2 ^ Suc r dvd x" by blast
  from r(2) assms(1) have "2 ^ r \<le> \<bar>x\<bar>"
    by (metis abs_of_nonneg dvd_imp_le_int zero_le_numeral zero_le_power)
  with assms(2) have small: "\<not> (2::int) ^ 64 \<le> 2 ^ r" by linarith
  have "ilog2 (nat ((2::int) ^ r)) = r"
    by (simp add: nat_power_eq ilog2_pow2)
  with r(1) small have "get_r x = Inr r"
    by (simp add: get_r_def)
  with r show ?thesis by blast
qed

lemma get_r_zero: "get_r 0 = Inl OverflowError"
  by (simp add: get_r_def)

lemma r_of_total:
  "h ip 8 (i + 1) \<noteq> 0 \<Longrightarrow>
     \<exists>r. r_of ip i = Inr r \<and> 2 ^ r dvd h ip 8 (i + 1) \<and> \<not> 2 ^ Suc r dvd h ip 8 (i + 1)"
proof -
  assume nz: "h ip 8 (i + 1) \<noteq> 0"
  have "h ip 8 (i + 1) < 10 ^ 8" by (rule h_bound)
  then have "int (h ip 8 (i + 1)) < 2 ^ 64" by simp
  with nz get_r_trailing_zeros [of "int (h ip 8 (i + 1))"]
  obtain r where r: "get_r (int (h ip 8 (i + 1))) = Inr r" "2 ^ r dvd int (h ip 8 (i + 1))"
    "\<not> 2 ^ Suc r dvd int (h ip 8 (i + 1))" by auto
  from r(2) have "2 ^ r dvd h ip 8 (i + 1)"
    by (metis int_dvd_int_iff of_nat_numeral of_nat_power)
  moreover from r(3) have "\<not> 2 ^ Suc r dvd h ip 8 (i + 1)"
    by (metis int_dvd_int_iff of_nat_numeral of_nat_power)
  ultimately show ?thesis using r(1) by (auto simp: r_of_def)
qed

lemma r_of_zero: "h ip 8 (i + 1) = 0 \<Longrightarrow> r_of ip i = Inl OverflowError"
  by (simp add: r_of_def get_r_def)

lemma Rs_update_loop_length:
  "Rs_update_loop ip is Rs = (res, Rs') \<Longrightarrow> length Rs' = length Rs"
  by (induction "is" arbitrary: Rs) (auto split: sum.splits if_splits)

lemma Rs_update_loop_mono:
  "Rs_update_loop ip is Rs = (res, Rs') \<Longrightarrow> j < length Rs \<Longrightarrow> Rs ! j \<le> Rs' ! j"
proof (induction "is" arbitrary: Rs)
  case Nil
  then show ?case by simp
next
  case (Cons i "is")
  show ?case
  proof (cases "r_of ip i")
    case (Inl e)
    with Cons.prems show ?thesis by simp
  next
    case (Inr r)
    show ?thesis
    proof (cases "i < length Rs")
      case True
      let ?Rs1 = "if r > Rs ! i then Rs[i := r] else Rs"
      from Cons.prems Inr True have run: "Rs_update_loop ip is ?Rs1 = (res, Rs')" by simp
      have "length ?Rs1 = length Rs" by simp
      with Cons.IH [OF run] Cons.prems(2) have "?Rs1 ! j \<le> Rs' ! j" by simp
      moreover have "Rs ! j \<le> ?Rs1 ! j"
        using Cons.prems(2) True by (cases "j = i") (auto simp: nth_list_update)
      ultimately show ?thesis by linarith
    next
      case False
      with Cons.prems Inr show ?thesis by simp
    qed
  qed
qed

lemma Rs_update_loop_max:
  assumes "Rs_update_loop ip is Rs = (None, Rs')" "distinct is" "j < length Rs"
  shows "Rs' ! j = (if j \<in> set is then max (Rs ! j) (tz ip j) else Rs ! j)"
  using assms
proof (induction "is" arbitrary: Rs)
  case Nil
  then show ?case by simp
next
  case (Cons i "is")
  from Cons.prems(1) obtain r where r: "r_of ip i = Inr r"
    by (cases "r_of ip i") auto
  with Cons.prems(1) have i: "i < length Rs" by (auto split: if_splits)
  let ?Rs1 = "if r > Rs ! i then Rs[i := r] else Rs"
  from Cons.prems(1) r i have run: "Rs_update_loop ip is ?Rs1 = (None, Rs')" by simp
  have d: "distinct is" "i \<notin> set is" using Cons.prems(2) by auto
  have "j < length ?Rs1" using Cons.prems(3) by simp
  from Cons.IH [OF run d(1) this]
  have IH: "Rs' ! j = (if j \<in> set is then max (?Rs1 ! j) (tz ip j) else ?Rs1 ! j)" .
  have tzi: "tz ip i = r" using r by (simp add: tz_def)
  show ?case
  proof (cases "j = i")
    case True
    with d(2) IH have "Rs' ! j = ?Rs1 ! i" by simp
    also have "\<dots> = max (Rs ! i) r" using i by (auto simp: max_def)
    finally show ?thesis using True tzi by simp
  next
    case False
    then have "?Rs1 ! j = Rs ! j" by (simp add: nth_list_update)
    with IH False show ?thesis by simp
  qed
qed

lemma Rs_update_max:
  assumes "Rs_update ip n Rs = (None, Rs')" "j < n" "n \<le> length Rs"
  shows "Rs' ! j = max (Rs ! j) (tz ip j)"
  using Rs_update_loop_max [OF assms(1) [unfolded Rs_update_def], of j] assms(2,3) by simp

lemma flajolet_martin_loop_max:
  assumes "flajolet_martin_loop ips n Rs = (None, Rs')" "j < n" "n \<le> length Rs"
  shows "Rs' ! j = Max (insert (Rs ! j) ((\<lambda>ip. tz ip j) ` set ips))"
  using assms
proof (induction ips arbitrary: Rs)
  case Nil
  then show ?case by simp
next
  case (Cons ip ips)
  from Cons.prems(1) obtain Rs1 where step: "Rs_update ip n Rs = (None, Rs1)"
    and rest: "flajolet_martin_loop ips n Rs1 = (None, Rs')"
    by (auto split: prod.splits option.splits)
  have l1: "length Rs1 = length Rs"
    using Rs_update_loop_length [OF step [unfolded Rs_update_def]] .
  have "Rs1 ! j = max (Rs ! j) (tz ip j)"
    by (rule Rs_update_max [OF step Cons.prems(2,3)])
  moreover have "Rs' ! j = Max (insert (Rs1 ! j) ((\<lambda>ip. tz ip j) ` set ips))"
    using Cons.IH [OF rest Cons.prems(2)] Cons.prems(3) l1 by simp
  ultimately have "Rs' ! j = Max (insert (max (Rs ! j) (tz ip j)) ((\<lambda>ip. tz ip j) ` set ips))"
    by simp
  also have "\<dots> = Max (insert (Rs ! j) (insert (tz ip j) ((\<lambda>ip. tz ip j) ` set ips)))"
  proof -
    have fin: "finite ((\<lambda>ip. tz ip j) ` set ips)" by simp
    show ?thesis
    proof (cases "ips = []")
      case True
      then show ?thesis by (simp add: max.commute)
    next
      case False
      then have ne: "(\<lambda>ip. tz ip j) ` set ips \<noteq> {}" by simp
      show ?thesis using fin ne by (simp add: max.assoc)
    qed
  qed
  finally show ?case by simp
qed

lemma flajolet_martin_loop_length:
  "flajolet_martin_loop ips n Rs = (res, Rs') \<Longrightarrow> length Rs' = length Rs"
proof (induction ips arbitrary: Rs)
  case Nil
  then show ?case by simp
next
  case (Cons ip ips)
  obtain r1 Rs1 where step: "Rs_update ip n Rs = (r1, Rs1)" by (cases "Rs_update ip n Rs")
  then have l1: "length Rs1 = length Rs"
    using Rs_update_loop_length [of ip "[0..<n]" Rs r1 Rs1] by (simp add: Rs_update_def)
  show ?case
  proof (cases r1)
    case None
    with Cons.prems step have "flajolet_martin_loop ips n Rs1 = (res, Rs')" by simp
    with Cons.IH l1 show ?thesis by simp
  next
    case (Some e)
    with Cons.prems step l1 show ?thesis by simp
  qed
qed

lemma Rs_update_loop_defined:
  "Rs_update_loop ip is Rs = (None, Rs') \<Longrightarrow> i \<in> set is \<Longrightarrow> \<exists>r. r_of ip i = Inr r"
proof (induction "is" arbitrary: Rs)
  case Nil
  then show ?case by simp
next
  case (Cons i' "is")
  from Cons.prems(1) obtain r where r: "r_of ip i' = Inr r"
    by (cases "r_of ip i'") auto
  show ?case
  proof (cases "i = i'")
    case True
    with r show ?thesis by simp
  next
    case False
    with Cons.prems(2) have m: "i \<in> set is" by simp
    from Cons.prems(1) r
    have "Rs_update_loop ip is (if r > Rs ! i' then Rs[i' := r] else Rs) = (None, Rs')"
      by (auto split: if_splits)
    from Cons.IH [OF this m] show ?thesis .
  qed
qed

lemma flajolet_martin_loop_defined:
  "flajolet_martin_loop ips n Rs = (None, Rs') \<Longrightarrow> ip \<in> set ips \<Longrightarrow> i < n \<Longrightarrow>
     \<exists>r. r_of ip i = Inr r"
proof (induction ips arbitrary: Rs)
  case Nil
  then show ?case by simp
next
  case (Cons ip' ips)
  from Cons.prems(1) obtain Rs1 where step: "Rs_update ip' n Rs = (None, Rs1)"
    and rest: "flajolet_martin_loop ips n Rs1 = (None, Rs')"
    by (auto split: prod.splits option.splits)
  show ?case
  proof (cases "ip = ip'")
    case True
    from Cons.prems(3) have "i \<in> set [0..<n]" by simp
    from Rs_update_loop_defined [OF step [unfolded Rs_update_def] this] True
    show ?thesis by simp
  next
    case False
    with Cons.prems(2) have "ip \<in> set ips" by simp
    from Cons.IH [OF rest this Cons.prems(3)] show ?thesis .
  qed
qed

lemma Rs_update_loop_unchanged:
  "\<forall>i \<in> set is. i < length Rs \<and> (\<exists>r. r_of ip i = Inr r \<and> r \<le> Rs ! i) \<Longrightarrow>
     Rs_update_loop ip is Rs = (None, Rs)"
  by (induction "is") auto

lemma upt_0_Cons: "0 < n \<Longrightarrow> [0..<n] = 0 # [Suc 0..<n]"
  by (rule upt_conv_Cons)

lemma Rs_update_raises_first:
  "0 < n \<Longrightarrow> r_of ip 0 = Inl e \<Longrightarrow> Rs_update ip n Rs = (Some e, Rs)"
  by (simp add: Rs_update_def upt_0_Cons)

lemma sha1_zero_key:
  "sha1_int ''3.118.195.14'' = 0x6502e7f2ddbe64a20625b6c2842dcb8dd2e20500"
  by (simp add: sha1_eval del: sha1_w.simps sha1_step.simps add_state.simps)

lemma h_zero_key: "h ''3.118.195.14'' 8 1 = 0"
  by (simp add: h_def str_mul_def sha1_zero_key)

lemma upt_0_3: "[0..<3] = [0, Suc 0, 2]"
  by (simp add: eval_nat_numeral upt_rec)

lemma r_of_Hello_World [simp]:
  "r_of ''Hello World'' 0 = Inr 4"
  "r_of ''Hello World'' (Suc 0) = Inr 2"
  "r_of ''Hello World'' 2 = Inr 0"
  by (simp_all add: r_of_def h_def str_mul_def replicate_numeral get_r_def ilog2.simps
      sha1_Hello_World_1 sha1_Hello_World_2 sha1_Hello_World_3)

lemma flajolet_martin_Hello_World:
  "flajolet_martin [''Hello World''] 3 = (None, [4, 2, 0])"
  by (simp add: flajolet_martin_def Rs_update_def upt_0_3 replicate_numeral)

section \<open>Distinct counting: the trackers\<close>

text \<open>
  Claim C8. After an ingestion of any finite sequence of keys that returns, every tracker
  \<open>Rs[j]\<close> is the maximum of the trailing-zero counts of the keys under hash function
  \<open>j\<close> (and of the initial 0, which is the value for an empty sequence), where the count
  \<open>tz ip j\<close> is what \<open>get_r\<close> returned for the key: the largest power of two dividing its
  hash value; one more ingestion never lowers a tracker; and ingesting a key of the
  sequence again returns and changes no tracker.
\<close>

theorem tracker_invariant:
  assumes "flajolet_martin keys num_hashes = (None, Rs)" "j < num_hashes"
  shows "Rs ! j = Max (insert 0 ((\<lambda>ip. tz ip j) ` set keys))
       \<and> (\<forall>ip \<in> set keys. r_of ip j = Inr (tz ip j)
             \<and> 2 ^ tz ip j dvd h ip 8 (j + 1) \<and> \<not> 2 ^ Suc (tz ip j) dvd h ip 8 (j + 1))
       \<and> (\<forall>ip Rs1 res Rs2. j < length Rs1 \<and> Rs_update ip num_hashes Rs1 = (res, Rs2)
             \<longrightarrow> Rs1 ! j \<le> Rs2 ! j)
       \<and> (\<forall>ip \<in> set keys. Rs_update ip num_hashes Rs = (None, Rs))"
proof (intro conjI allI impI ballI)
  let ?n = num_hashes
  have run: "flajolet_martin_loop keys ?n (replicate ?n 0) = (None, Rs)"
    using assms(1) by (simp add: flajolet_martin_def)
  have len: "length Rs = ?n"
    using flajolet_martin_loop_length [OF run] by simp
  have mx: "Rs ! i = Max (insert 0 ((\<lambda>ip. tz ip i) ` set keys))" if "i < ?n" for i
    using flajolet_martin_loop_max [OF run that] that by simp
  show "Rs ! j = Max (insert 0 ((\<lambda>ip. tz ip j) ` set keys))"
    by (rule mx [OF assms(2)])
  {
    fix ip assume ip: "ip \<in> set keys"
    from flajolet_martin_loop_defined [OF run ip assms(2)] obtain r
      where r: "r_of ip j = Inr r" by blast
    then have t: "tz ip j = r" by (simp add: tz_def)
    with r show "r_of ip j = Inr (tz ip j)" by simp
    have nz: "h ip 8 (j + 1) \<noteq> 0" using r r_of_zero [of ip j] by auto
    from r_of_total [OF nz] r t
    show "2 ^ tz ip j dvd h ip 8 (j + 1)" and "\<not> 2 ^ Suc (tz ip j) dvd h ip 8 (j + 1)"
      by auto
  }
  {
    fix ip assume ip: "ip \<in> set keys"
    have "\<forall>i \<in> set [0..<?n]. i < length Rs \<and> (\<exists>r. r_of ip i = Inr r \<and> r \<le> Rs ! i)"
    proof
      fix i assume "i \<in> set [0..<?n]"
      then have i: "i < ?n" by simp
      from flajolet_martin_loop_defined [OF run ip i] obtain r where r: "r_of ip i = Inr r" by blast
      then have "tz ip i = r" by (simp add: tz_def)
      moreover have "tz ip i \<le> Max (insert 0 ((\<lambda>ip. tz ip i) ` set keys))"
        using ip by (intro Max_ge) auto
      ultimately have "r \<le> Rs ! i" using mx [OF i] by simp
      with r i len show "i < length Rs \<and> (\<exists>r. r_of ip i = Inr r \<and> r \<le> Rs ! i)" by simp
    qed
    from Rs_update_loop_unchanged [OF this]
    show "Rs_update ip ?n Rs = (None, Rs)" by (simp add: Rs_update_def)
  }
next
  fix ip Rs1 res Rs2
  assume "j < length Rs1 \<and> Rs_update ip num_hashes Rs1 = (res, Rs2)"
  then show "Rs1 ! j \<le> Rs2 ! j"
    using Rs_update_loop_mono [of ip "[0..<num_hashes]" Rs1 res Rs2 j] by (simp add: Rs_update_def)
qed

theorem tracker_invariant_witness:
  "flajolet_martin [''Hello World''] 3 = (None, [4, 2, 0]) \<and> (0::nat) < 3
   \<and> [4, 2, 0] ! 0 = Max (insert 0 ((\<lambda>ip. tz ip 0) ` set [''Hello World'']))
   \<and> tz ''Hello World'' 0 = 4
   \<and> Rs_update ''Hello World'' 3 [4, 2, 0] = (None, [4, 2, 0])"
proof -
  have run: "flajolet_martin [''Hello World''] 3 = (None, [4, 2, 0])"
    by (rule flajolet_martin_Hello_World)
  have j: "(0::nat) < 3" by simp
  have t: "tz ''Hello World'' 0 = 4" by (simp add: tz_def)
  from tracker_invariant [OF run j]
  have "[4, 2, 0] ! 0 = Max (insert 0 ((\<lambda>ip. tz ip 0) ` set [''Hello World'']))"
    and "Rs_update ''Hello World'' 3 [4, 2, 0] = (None, [4, 2, 0])"
    by simp_all
  with run j t show ?thesis by blast
qed

section \<open>Distinct counting: a hash value of zero\<close>

text \<open>
  Claim C4 at a failing input. \<open>get_r\<close> has no case for 0: \<^verbatim>\<open>np.log2(0)\<close> is minus
  infinity and \<^verbatim>\<open>int\<close> of it raises OverflowError. The key \<^verbatim>\<open>3.118.195.14\<close> has the
  hash value 0 under the first hash function (its digest ends in eight decimal zeros), so
  its ingestion raises before any tracker is updated.
\<close>

theorem ingestion_raises_on_zero_hash:
  "get_r 0 = Inl OverflowError
   \<and> h ''3.118.195.14'' 8 1 = 0
   \<and> Rs_update ''3.118.195.14'' 128 (replicate 128 0) = (Some OverflowError, replicate 128 0)
   \<and> flajolet_martin [''3.118.195.14''] 128 = (Some OverflowError, replicate 128 0)"
proof -
  have r: "r_of ''3.118.195.14'' 0 = Inl OverflowError"
    using h_zero_key by (simp add: r_of_zero)
  have u: "Rs_update ''3.118.195.14'' 128 Rs = (Some OverflowError, Rs)" for Rs
    by (rule Rs_update_raises_first [OF _ r]) simp
  show ?thesis
    using get_r_zero h_zero_key u by (simp add: flajolet_martin_def)
qed

section \<open>Distinct counting: median of the groups, mean of the medians\<close>

lemma r_of_bound:
  assumes "r_of ip i = Inr r"
  shows "r < 27"
proof -
  have nz: "h ip 8 (i + 1) \<noteq> 0"
    using assms r_of_zero [of ip i] by auto
  from r_of_total [OF nz] assms have "2 ^ r dvd h ip 8 (i + 1)" by auto
  with nz have "2 ^ r \<le> h ip 8 (i + 1)" by (simp add: dvd_imp_le)
  also have "h ip 8 (i + 1) < 10 ^ 8" by (rule h_bound)
  also have "(10::nat) ^ 8 < 2 ^ 27" by simp
  finally have "(2::nat) ^ r < 2 ^ 27" .
  from power_less_imp_less_exp [OF _ this] show ?thesis by simp
qed

text \<open>Every tracker the update loop leaves is below 27, the hash values being below \<open>10 ^ 8\<close>.\<close>

lemma Rs_update_loop_trackers:
  assumes "\<forall>r \<in> set Rs. r < 27" "Rs_update_loop ip is Rs = (res, Rs')"
  shows "\<forall>r \<in> set Rs'. r < 27"
  using assms
proof (induction "is" arbitrary: Rs)
  case Nil
  then show ?case by simp
next
  case (Cons i "is")
  show ?case
  proof (cases "r_of ip i")
    case (Inl e)
    with Cons.prems show ?thesis by simp
  next
    case (Inr r)
    show ?thesis
    proof (cases "i < length Rs")
      case True
      let ?Rs = "if r > Rs ! i then Rs[i := r] else Rs"
      from r_of_bound [OF Inr] have r: "r < 27" .
      have "set (Rs[i := r]) \<subseteq> insert r (set Rs)" by (rule set_update_subset_insert)
      with Cons.prems(1) r have "\<forall>r \<in> set ?Rs. r < 27" by auto
      moreover from Cons.prems(2) Inr True have "Rs_update_loop ip is ?Rs = (res, Rs')" by simp
      ultimately show ?thesis by (rule Cons.IH)
    next
      case False
      with Cons.prems Inr show ?thesis by simp
    qed
  qed
qed

lemma flajolet_martin_loop_trackers:
  assumes "\<forall>r \<in> set Rs. r < 27" "flajolet_martin_loop ips num_hashes Rs = (res, Rs')"
  shows "\<forall>r \<in> set Rs'. r < 27"
  using assms
proof (induction ips arbitrary: Rs)
  case Nil
  then show ?case by simp
next
  case (Cons ip ips)
  obtain e Rs1 where u: "Rs_update ip num_hashes Rs = (e, Rs1)"
    by (cases "Rs_update ip num_hashes Rs")
  then have "Rs_update_loop ip [0..<num_hashes] Rs = (e, Rs1)" by (simp add: Rs_update_def)
  from Rs_update_loop_trackers [OF Cons.prems(1) this] have b: "\<forall>r \<in> set Rs1. r < 27" .
  show ?case
  proof (cases e)
    case None
    with Cons.prems(2) u have "flajolet_martin_loop ips num_hashes Rs1 = (res, Rs')" by simp
    from Cons.IH [OF b this] show ?thesis .
  next
    case (Some err)
    with Cons.prems(2) u have "Rs' = Rs1" by simp
    with b show ?thesis by simp
  qed
qed

lemma flajolet_martin_trackers:
  "flajolet_martin ips num_hashes = (res, Rs) \<Longrightarrow> \<forall>r \<in> set Rs. r < 27"
  using flajolet_martin_loop_trackers [of "replicate num_hashes 0" ips num_hashes res Rs]
  by (simp add: flajolet_martin_def)

lemma mset_shuffle_loop: "i < length xs \<or> i = 0 \<Longrightarrow> mset (shuffle_loop rng i xs) = mset xs"
proof (induction i arbitrary: xs)
  case 0
  then show ?case by simp
next
  case (Suc i)
  let ?j = "rng (Suc i) mod (Suc i + 1)"
  from Suc.prems have i: "Suc i < length xs" by simp
  have "?j < Suc i + 1" by simp
  with i have j: "?j < length xs" by linarith
  let ?xs = "xs[Suc i := xs ! ?j, ?j := xs ! Suc i]"
  have "mset ?xs = mset xs" using mset_swap [OF j i] by simp
  moreover have "i < length ?xs \<or> i = 0" using i by simp
  ultimately show ?case using Suc.IH [of ?xs] by simp
qed

lemma mset_np_shuffle: "mset (np_shuffle rng xs) = mset xs"
proof (cases xs)
  case Nil
  then show ?thesis by (simp add: np_shuffle_def)
next
  case (Cons x xs')
  then have "length xs - 1 < length xs" by simp
  then show ?thesis by (simp add: np_shuffle_def mset_shuffle_loop)
qed

lemma sections_props:
  "length xs = k * sz \<Longrightarrow>
     length (sections k sz xs) = k \<and> (\<forall>b \<in> set (sections k sz xs). length b = sz)
     \<and> concat (sections k sz xs) = xs"
proof (induction k arbitrary: xs)
  case 0
  then show ?case by simp
next
  case (Suc k)
  then have "length (drop sz xs) = k * sz" by simp
  from Suc.IH [OF this] Suc.prems show ?case by auto
qed

lemma filter_ge_prefix:
  assumes "k \<le> length ys" "\<forall>i < k. P (ys ! i)"
  shows "k \<le> length (filter P ys)"
proof -
  have "filter P (take k ys) = take k ys"
    using assms by (auto simp: filter_id_conv in_set_conv_nth)
  then have "length (filter P (take k ys)) = k" using assms(1) by simp
  moreover have "filter P ys = filter P (take k ys) @ filter P (drop k ys)"
    by (subst append_take_drop_id [of k ys, symmetric]) (simp only: filter_append)
  then have "length (filter P ys) = length (filter P (take k ys)) + length (filter P (drop k ys))"
    by simp
  ultimately show ?thesis by simp
qed

lemma filter_ge_suffix:
  assumes "k \<le> length ys" "\<forall>i. k \<le> i \<and> i < length ys \<longrightarrow> P (ys ! i)"
  shows "length ys - k \<le> length (filter P ys)"
proof -
  have "filter P (drop k ys) = drop k ys"
    using assms by (auto simp: filter_id_conv in_set_conv_nth)
  then have "length (filter P (drop k ys)) = length ys - k" by simp
  moreover have "filter P ys = filter P (take k ys) @ filter P (drop k ys)"
    by (subst append_take_drop_id [of k ys, symmetric]) (simp only: filter_append)
  then have "length (filter P ys) = length (filter P (take k ys)) + length (filter P (drop k ys))"
    by simp
  ultimately show ?thesis by simp
qed

lemma length_filter_sort: "length (filter P (sort xs)) = length (filter P xs)" for xs :: "int list"
proof -
  have "mset (filter P (sort xs)) = mset (filter P xs)" by simp
  then have "size (mset (filter P (sort xs))) = size (mset (filter P xs))" by simp
  then show ?thesis by (simp only: size_mset)
qed

subsection \<open>Rounding to double precision\<close>

lemma floor_log2_nonneg: "0 \<le> floor_log2 n"
proof (induction n rule: floor_log2.induct)
  case (1 n)
  then show ?case by (cases "n < 2") (simp_all add: floor_log2.simps [of n])
qed

lemma floor_log2_bounds:
  "1 \<le> n \<Longrightarrow> 2 ^ nat (floor_log2 n) \<le> n \<and> n < 2 * 2 ^ nat (floor_log2 n)"
proof (induction n rule: floor_log2.induct)
  case (1 n)
  show ?case
  proof (cases "n < 2")
    case True
    with 1 show ?thesis by (simp add: floor_log2.simps [of n])
  next
    case False
    then have "1 \<le> n div 2" by simp
    from "1.IH" [OF False this]
    have IH: "2 ^ nat (floor_log2 (n div 2)) \<le> n div 2" "n div 2 < 2 * 2 ^ nat (floor_log2 (n div 2))"
      by simp_all
    have e: "nat (floor_log2 n) = Suc (nat (floor_log2 (n div 2)))"
      using False floor_log2_nonneg [of "n div 2"] by (simp add: floor_log2.simps [of n] nat_add_distrib)
    from IH show ?thesis unfolding e by simp linarith
  qed
qed

lemma round_half_even_of_int: "round_half_even (of_int k) = k"
  by (simp add: round_half_even_def)

lemma round_half_even_error: "\<bar>of_int (round_half_even y) - y\<bar> \<le> 1 / 2"
proof -
  have "of_int \<lfloor>y\<rfloor> \<le> y" "y < of_int \<lfloor>y\<rfloor> + 1" by linarith+
  then show ?thesis by (auto simp: round_half_even_def abs_le_iff)
qed

lemma fexp_ge_1:
  assumes "1 \<le> x"
  shows "0 \<le> fexp x" "power_int 2 (fexp x) \<le> x" "x < 2 * power_int 2 (fexp x)"
proof -
  let ?n = "\<lfloor>x\<rfloor>"
  from assms have n: "1 \<le> ?n" by simp
  have e: "fexp x = floor_log2 ?n" using assms by (simp add: fexp_def)
  show "0 \<le> fexp x" unfolding e by (rule floor_log2_nonneg)
  have p: "power_int (2::rat) (floor_log2 ?n) = 2 ^ nat (floor_log2 ?n)"
    using floor_log2_nonneg [of ?n] by (simp add: power_int_def)
  from floor_log2_bounds [OF n]
  have b: "2 ^ nat (floor_log2 ?n) \<le> ?n" "?n + 1 \<le> 2 * 2 ^ nat (floor_log2 ?n)" by simp_all
  from b(1) have "(of_int (2 ^ nat (floor_log2 ?n)) :: rat) \<le> of_int ?n" by (simp only: of_int_le_iff)
  also have "\<dots> \<le> x" by simp
  finally show "power_int 2 (fexp x) \<le> x" unfolding e p by simp
  have "x < of_int (?n + 1)" by linarith
  also from b(2) have "(of_int (?n + 1) :: rat) \<le> of_int (2 * 2 ^ nat (floor_log2 ?n))"
    by (simp only: of_int_le_iff)
  finally show "x < 2 * power_int 2 (fexp x)" unfolding e p by simp
qed


lemma float64_ulp_ge_1:
  assumes "1 \<le> x"
  shows "float64_ulp x = 2 ^ nat (fexp x) / 2 ^ 52"
proof -
  from fexp_ge_1(1) [OF assms] have e: "0 \<le> fexp x" .
  from assms have "\<bar>x\<bar> = x" by simp
  then have "float64_ulp x = power_int 2 (fexp x - 52)"
    using e by (simp add: float64_ulp_def max_def)
  also have "\<dots> = power_int 2 (fexp x) / power_int 2 52"
    by (rule power_int_diff) simp
  also have "\<dots> = 2 ^ nat (fexp x) / 2 ^ 52"
    using e by (simp add: power_int_def)
  finally show ?thesis .
qed

lemma float64_round_half: "float64_round (1 / 2) = 1 / 2"
proof -
  have "fexp \<bar>1 / 2\<bar> = - 1" by (simp add: fexp_def floor_log2.simps)
  then have u: "float64_ulp (1 / 2) = 1 / 2 ^ 53"
    by (simp add: float64_ulp_def power_int_def power_divide)
  have "(1 / 2) / (1 / 2 ^ 53) = (of_int (2 ^ 52) :: rat)" by simp
  then have "round_half_even ((1 / 2) / (1 / 2 ^ 53)) = 2 ^ 52"
    by (simp only: round_half_even_of_int)
  then show ?thesis by (simp add: float64_round_def u)
qed

lemma float64_round_exact:
  assumes "0 \<le> x" "x < 2 ^ 52" "2 * x \<in> \<int>"
  shows "float64_round x = x"
proof -
  from assms(3) obtain z :: int where z: "2 * x = of_int z" by (auto elim: Ints_cases)
  consider "x = 0" | "0 < x" "x < 1" | "1 \<le> x" using assms(1) by linarith
  then show ?thesis
  proof cases
    case 1
    then show ?thesis by (simp add: float64_round_def)
  next
    case 2
    then have "0 < (of_int z :: rat)" "(of_int z :: rat) < 2" using z by linarith+
    then have "0 < z" "z < 2" by (simp_all only: of_int_0_less_iff of_int_less_numeral_iff)
    then have "z = 1" by simp
    with z have "x = 1 / 2" by simp
    then show ?thesis by (simp only: float64_round_half)
  next
    case 3
    let ?n = "nat (fexp x)"
    from fexp_ge_1 [OF 3] have e: "0 \<le> fexp x" and lo: "power_int 2 (fexp x) \<le> x" by simp_all
    from e have "power_int (2::rat) (fexp x) = 2 ^ ?n" by (simp add: power_int_def)
    with lo assms(2) have "(2::rat) ^ ?n < 2 ^ 52" by linarith
    from power_less_imp_less_exp [OF _ this] have n: "?n < 52" by simp
    have u: "float64_ulp x = 2 ^ ?n / 2 ^ 52" by (rule float64_ulp_ge_1 [OF 3])
    have p: "(2::rat) ^ 52 = 2 * 2 ^ (51 - ?n) * 2 ^ ?n"
    proof -
      have "(2::rat) * 2 ^ (51 - ?n) * 2 ^ ?n = 2 ^ (Suc (51 - ?n) + ?n)"
        by (simp only: power_add power_Suc)
      also have "Suc (51 - ?n) + ?n = 52" using n by simp
      finally show ?thesis by simp
    qed
    have "x / float64_ulp x = x * 2 ^ 52 / 2 ^ ?n" by (simp add: u)
    also have "\<dots> = (2 * x) * 2 ^ (51 - ?n)" by (simp only: p) simp
    also have "\<dots> = of_int (z * 2 ^ (51 - ?n))" by (simp add: z)
    finally have q: "x / float64_ulp x = of_int (z * 2 ^ (51 - ?n))" .
    have "float64_round x = of_int (z * 2 ^ (51 - ?n)) * float64_ulp x"
      using 3 by (simp add: float64_round_def q round_half_even_of_int del: of_int_mult of_int_power)
    also have "\<dots> = x / float64_ulp x * float64_ulp x" by (simp only: q)
    also have "\<dots> = x" by (simp add: u)
    finally show ?thesis .
  qed
qed

lemma float64_round_error:
  assumes "1 \<le> x"
  shows "\<bar>float64_round x - x\<bar> \<le> x / 2 ^ 53"
proof -
  let ?u = "float64_ulp x"
  have u: "?u = 2 ^ nat (fexp x) / 2 ^ 52" by (rule float64_ulp_ge_1 [OF assms])
  have upos: "0 < ?u" by (subst u) simp
  from fexp_ge_1 [OF assms] have "(2::rat) ^ nat (fexp x) \<le> x" by (simp add: power_int_def)
  then have ule: "?u \<le> x / 2 ^ 52" unfolding u by (simp add: divide_right_mono)
  have "float64_round x - x = (of_int (round_half_even (x / ?u)) - x / ?u) * ?u"
    using assms upos by (simp add: float64_round_def algebra_simps)
  then have "\<bar>float64_round x - x\<bar> = \<bar>of_int (round_half_even (x / ?u)) - x / ?u\<bar> * ?u"
    using upos by (simp add: abs_mult)
  also have "\<dots> \<le> 1 / 2 * ?u"
    using round_half_even_error [of "x / ?u"] upos by (intro mult_right_mono) simp_all
  also have "\<dots> \<le> 1 / 2 * (x / 2 ^ 52)" using ule by simp
  also have "\<dots> = x / 2 ^ 53" by simp
  finally show ?thesis .
qed

lemma np_power_2:
  assumes "\<forall>r \<in> set Rs. r < 63"
  shows "np_power 2 Rs = map (\<lambda>r. 2 ^ r) Rs"
proof -
  have "sint ((word_of_int 2 :: 64 word) ^ r) = 2 ^ r" if "r < 63" for r
  proof -
    have "(word_of_int 2 :: 64 word) ^ r = word_of_int (2 ^ r)" by (simp only: word_of_int_power_hom)
    then have "sint ((word_of_int 2 :: 64 word) ^ r) = signed_take_bit (64 - 1) ((2::int) ^ r)"
      by (simp only: sint_sbintrunc') simp
    also have "\<dots> = 2 ^ r"
    proof (rule signed_take_bit_int_eq_self)
      have "- ((2::int) ^ (64 - 1)) \<le> 0" by simp
      also have "(0::int) \<le> 2 ^ r" by simp
      finally show "- ((2::int) ^ (64 - 1)) \<le> 2 ^ r" .
      from that have "(2::int) ^ r < 2 ^ 63" by (intro power_strict_increasing) simp_all
      then show "(2::int) ^ r < 2 ^ (64 - 1)" by simp
    qed
    finally show ?thesis .
  qed
  with assms show ?thesis by (simp add: np_power_def)
qed

subsection \<open>Sums that do not round\<close>

text \<open>
  A sum of non-negative halves of integers below \<open>2 ^ 52\<close> is exact at every addition, in
  whatever order the additions are made.
\<close>

lemma fadd_exact:
  assumes "0 \<le> x \<and> 2 * x \<in> \<int>" "0 \<le> y \<and> 2 * y \<in> \<int>" "x + y < 2 ^ 52"
  shows "fadd x y = x + y" "0 \<le> x + y \<and> 2 * (x + y) \<in> \<int>"
proof -
  have "2 * (x + y) = 2 * x + 2 * y" by simp
  with assms show ok: "0 \<le> x + y \<and> 2 * (x + y) \<in> \<int>" by (simp only: Ints_add) simp
  with assms(3) show "fadd x y = x + y" by (simp add: fadd_def float64_round_exact)
qed

lemma sum_list_exact:
  "\<forall>x \<in> set xs. 0 \<le> x \<and> 2 * x \<in> \<int> \<Longrightarrow> 0 \<le> sum_list xs \<and> 2 * sum_list xs \<in> \<int>"
  for xs :: "rat list"
proof (induction xs)
  case Nil
  then show ?case by simp
next
  case (Cons x xs)
  then have "0 \<le> x" "2 * x \<in> \<int>" "0 \<le> sum_list xs" "2 * sum_list xs \<in> \<int>" by simp_all
  moreover have "2 * sum_list (x # xs) = 2 * x + 2 * sum_list xs" by simp
  ultimately show ?case by (simp only: Ints_add) simp
qed

lemma foldl_fadd_exact:
  assumes "0 \<le> acc \<and> 2 * acc \<in> \<int>" "\<forall>x \<in> set xs. 0 \<le> x \<and> 2 * x \<in> \<int>"
    and "acc + sum_list xs < 2 ^ 52"
  shows "foldl fadd acc xs = acc + sum_list xs"
  using assms
proof (induction xs arbitrary: acc)
  case Nil
  then show ?case by simp
next
  case (Cons x xs)
  from Cons.prems(2) have x: "0 \<le> x \<and> 2 * x \<in> \<int>" and xs: "\<forall>x \<in> set xs. 0 \<le> x \<and> 2 * x \<in> \<int>"
    by simp_all
  from sum_list_exact [OF xs] have "0 \<le> sum_list xs" by simp
  with Cons.prems(3) have b: "acc + x < 2 ^ 52" by simp
  from fadd_exact [OF Cons.prems(1) x b]
  have f: "fadd acc x = acc + x" "0 \<le> acc + x \<and> 2 * (acc + x) \<in> \<int>" by simp_all
  have "acc + x + sum_list xs < 2 ^ 52" using Cons.prems(3) by (simp add: add.assoc)
  from Cons.IH [OF f(2) xs this] f(1) show ?case by (simp add: add.assoc)
qed

lemma map2_fadd_exact:
  assumes "length r = length ys"
    and "\<forall>x \<in> set r. 0 \<le> x \<and> 2 * x \<in> \<int>" "\<forall>x \<in> set ys. 0 \<le> x \<and> 2 * x \<in> \<int>"
    and "sum_list r + sum_list ys < 2 ^ 52"
  shows "length (map2 fadd r ys) = length r
       \<and> (\<forall>x \<in> set (map2 fadd r ys). 0 \<le> x \<and> 2 * x \<in> \<int>)
       \<and> sum_list (map2 fadd r ys) = sum_list r + sum_list ys"
  using assms
proof (induction r ys rule: list_induct2)
  case Nil
  then show ?case by simp
next
  case (Cons x r y ys)
  from Cons.prems have x: "0 \<le> x \<and> 2 * x \<in> \<int>" and y: "0 \<le> y \<and> 2 * y \<in> \<int>"
    and r: "\<forall>x \<in> set r. 0 \<le> x \<and> 2 * x \<in> \<int>" and ys: "\<forall>x \<in> set ys. 0 \<le> x \<and> 2 * x \<in> \<int>"
    by simp_all
  from sum_list_exact [OF r] sum_list_exact [OF ys]
  have nn: "0 \<le> sum_list r" "0 \<le> sum_list ys" by simp_all
  from Cons.prems(3) have tot: "x + y + (sum_list r + sum_list ys) < 2 ^ 52" by (simp add: algebra_simps)
  with nn have b: "x + y < 2 ^ 52" by linarith
  from fadd_exact [OF x y b]
  have f: "fadd x y = x + y" "0 \<le> x + y \<and> 2 * (x + y) \<in> \<int>" by simp_all
  from tot f(2) have "sum_list r + sum_list ys < 2 ^ 52" by linarith
  from Cons.IH [OF r ys this] f show ?case by simp
qed

lemma add_blocks_exact:
  assumes "length r = 8" "8 dvd length xs"
    and "\<forall>x \<in> set r. 0 \<le> x \<and> 2 * x \<in> \<int>" "\<forall>x \<in> set xs. 0 \<le> x \<and> 2 * x \<in> \<int>"
    and "sum_list r + sum_list xs < 2 ^ 52"
  shows "length (add_blocks r xs) = 8
       \<and> (\<forall>x \<in> set (add_blocks r xs). 0 \<le> x \<and> 2 * x \<in> \<int>)
       \<and> sum_list (add_blocks r xs) = sum_list r + sum_list xs"
  using assms
proof (induction r xs rule: add_blocks.induct)
  case (1 r xs)
  show ?case
  proof (cases "xs = []")
    case True
    with "1.prems" show ?thesis by (simp add: add_blocks.simps [of r "[]"])
  next
    case False
    with "1.prems"(2) have l: "8 \<le> length xs" by (auto simp: dvd_imp_le)
    let ?ys = "take 8 xs"
    let ?zs = "drop 8 xs"
    have split: "sum_list xs = sum_list ?ys + sum_list ?zs"
      by (subst append_take_drop_id [of 8 xs, symmetric]) (simp only: sum_list_append)
    have ys: "\<forall>x \<in> set ?ys. 0 \<le> x \<and> 2 * x \<in> \<int>" using "1.prems"(4) by (auto dest: in_set_takeD)
    have zs: "\<forall>x \<in> set ?zs. 0 \<le> x \<and> 2 * x \<in> \<int>" using "1.prems"(4) by (auto dest: in_set_dropD)
    from sum_list_exact [OF zs] have nz: "0 \<le> sum_list ?zs" by simp
    have ly: "length r = length ?ys" using "1.prems"(1) l by simp
    have "sum_list r + sum_list ?ys < 2 ^ 52" using "1.prems"(5) split nz by linarith
    from map2_fadd_exact [OF ly "1.prems"(3) ys this]
    have m: "length (map2 fadd r ?ys) = length r"
      "\<forall>x \<in> set (map2 fadd r ?ys). 0 \<le> x \<and> 2 * x \<in> \<int>"
      "sum_list (map2 fadd r ?ys) = sum_list r + sum_list ?ys"
      by blast+
    have l8: "length (map2 fadd r ?ys) = 8" using m(1) "1.prems"(1) by simp
    have d8: "8 dvd length ?zs" using "1.prems"(2) l by (simp add: dvd_diff_nat)
    have tot: "sum_list (map2 fadd r ?ys) + sum_list ?zs < 2 ^ 52"
      using m(3) split "1.prems"(5) by linarith
    from "1.IH" [OF False l8 d8 m(2) zs tot] m(3) split False
    show ?thesis by (simp add: add_blocks.simps [of r xs] del: map_map)
  qed
qed

lemma list_of_length_8:
  "length r = 8 \<Longrightarrow> r = [r ! 0, r ! 1, r ! 2, r ! 3, r ! 4, r ! 5, r ! 6, r ! 7]"
  by (rule nth_equalityI) (auto simp: less_Suc_eq eval_nat_numeral)

lemma pairwise_sum_small: "length a < 8 \<Longrightarrow> pairwise_sum a = foldl fadd 0 a"
  by (subst pairwise_sum.simps) (simp only: if_True)

lemma pairwise_sum_block:
  assumes "\<not> length a < 8" "length a \<le> 128"
  shows "pairwise_sum a =
     (let r = add_blocks (take 8 a) (drop 8 (take (length a - length a mod 8) a)) in
         foldl fadd
           (fadd (fadd (fadd (r ! 0) (r ! 1)) (fadd (r ! 2) (r ! 3)))
                 (fadd (fadd (r ! 4) (r ! 5)) (fadd (r ! 6) (r ! 7))))
           (drop (length a - length a mod 8) a))"
  by (subst pairwise_sum.simps) (simp only: assms if_True if_False)

lemma pairwise_sum_halves:
  assumes "\<not> length a < 8" "\<not> length a \<le> 128"
  shows "pairwise_sum a =
     fadd (pairwise_sum (take (length a div 2 - length a div 2 mod 8) a))
                (pairwise_sum (drop (length a div 2 - length a div 2 mod 8) a))"
  by (subst pairwise_sum.simps) (simp only: assms if_True if_False)


lemma pairwise_sum_exact:
  assumes "\<forall>x \<in> set a. 0 \<le> x \<and> 2 * x \<in> \<int>" "sum_list a < 2 ^ 52"
  shows "pairwise_sum a = sum_list a"
  using assms
proof (induction a rule: pairwise_sum.induct)
  case (1 a)
  have zero: "0 \<le> (0::rat) \<and> 2 * (0::rat) \<in> \<int>" by simp
  consider "length a < 8" | "8 \<le> length a" "length a \<le> 128" | "128 < length a" by linarith
  then show ?case
  proof cases
    case 1
    from "1.prems"(2) have "0 + sum_list a < 2 ^ 52" by simp
    from foldl_fadd_exact [OF zero "1.prems"(1) this] show ?thesis
      by (simp add: pairwise_sum_small [OF 1])
  next
    case 2
    let ?m = "length a - length a mod 8"
    let ?hd = "take 8 a"
    let ?body = "drop 8 (take ?m a)"
    let ?rest = "drop ?m a"
    let ?r = "add_blocks ?hd ?body"
    have m8: "8 \<le> ?m"
    proof -
      have "?m = 8 * (length a div 8)" by (simp add: minus_mod_eq_mult_div)
      moreover have "1 \<le> length a div 8" using 2(1) by (simp add: Suc_le_eq div_greater_zero_iff)
      ultimately show ?thesis by simp
    qed
    have a1: "a = take ?m a @ ?rest" by simp
    have a2: "take ?m a = ?hd @ ?body"
    proof -
      have "take 8 (take ?m a) = ?hd" using m8 by (simp add: min_def)
      moreover have "take ?m a = take 8 (take ?m a) @ drop 8 (take ?m a)"
        by (simp only: append_take_drop_id)
      ultimately show ?thesis by simp
    qed
    have sum: "sum_list a = sum_list ?hd + sum_list ?body + sum_list ?rest"
      by (subst a1, subst a2) (simp only: sum_list_append)
    have sub: "set ?hd \<subseteq> set a" "set ?body \<subseteq> set a" "set ?rest \<subseteq> set a"
      by (auto dest: in_set_takeD in_set_dropD)
    have okh: "\<forall>x \<in> set ?hd. 0 \<le> x \<and> 2 * x \<in> \<int>" using "1.prems"(1) sub(1) by blast
    have okb: "\<forall>x \<in> set ?body. 0 \<le> x \<and> 2 * x \<in> \<int>" using "1.prems"(1) sub(2) by blast
    have okr: "\<forall>x \<in> set ?rest. 0 \<le> x \<and> 2 * x \<in> \<int>" using "1.prems"(1) sub(3) by blast
    from sum_list_exact [OF okr] have nr: "0 \<le> sum_list ?rest" by simp
    have lh: "length ?hd = 8" using 2(1) by simp
    have lb: "8 dvd length ?body"
    proof -
      have "length ?body = 8 * (length a div 8) - 8" by (simp add: minus_mod_eq_mult_div)
      also have "\<dots> = 8 * (length a div 8 - 1)" by (simp add: diff_mult_distrib2)
      finally show ?thesis by simp
    qed
    have "sum_list ?hd + sum_list ?body < 2 ^ 52" using sum nr "1.prems"(2) by linarith
    from add_blocks_exact [OF lh lb okh okb this]
    have r: "length ?r = 8" "\<forall>x \<in> set ?r. 0 \<le> x \<and> 2 * x \<in> \<int>"
      "sum_list ?r = sum_list ?hd + sum_list ?body"
      by blast+
    define r0 where "r0 = ?r ! 0"
    define r1 where "r1 = ?r ! 1"
    define r2 where "r2 = ?r ! 2"
    define r3 where "r3 = ?r ! 3"
    define r4 where "r4 = ?r ! 4"
    define r5 where "r5 = ?r ! 5"
    define r6 where "r6 = ?r ! 6"
    define r7 where "r7 = ?r ! 7"
    have rl: "?r = [r0, r1, r2, r3, r4, r5, r6, r7]"
      unfolding r0_def r1_def r2_def r3_def r4_def r5_def r6_def r7_def
      by (rule list_of_length_8 [OF r(1)])
    from r(2) have "\<forall>x \<in> set [r0, r1, r2, r3, r4, r5, r6, r7]. 0 \<le> x \<and> 2 * x \<in> \<int>"
      by (simp only: rl)
    then have ok: "0 \<le> r0 \<and> 2 * r0 \<in> \<int>" "0 \<le> r1 \<and> 2 * r1 \<in> \<int>" "0 \<le> r2 \<and> 2 * r2 \<in> \<int>"
      "0 \<le> r3 \<and> 2 * r3 \<in> \<int>" "0 \<le> r4 \<and> 2 * r4 \<in> \<int>" "0 \<le> r5 \<and> 2 * r5 \<in> \<int>"
      "0 \<le> r6 \<and> 2 * r6 \<in> \<int>" "0 \<le> r7 \<and> 2 * r7 \<in> \<int>"
      by simp_all
    have "sum_list ?r = sum_list [r0, r1, r2, r3, r4, r5, r6, r7]" by (simp only: rl)
    then have sr: "sum_list ?r = r0 + r1 + (r2 + r3) + (r4 + r5 + (r6 + r7))" by simp
    have tot: "sum_list ?r + sum_list ?rest < 2 ^ 52" using r(3) sum "1.prems"(2) by linarith
    have b: "r0 + r1 + (r2 + r3) + (r4 + r5 + (r6 + r7)) < 2 ^ 52" using tot sr nr by linarith
    have f01: "fadd r0 r1 = r0 + r1" "0 \<le> r0 + r1 \<and> 2 * (r0 + r1) \<in> \<int>"
    proof -
      have "r0 + r1 < 2 ^ 52" using b ok by linarith
      from fadd_exact [OF ok(1) ok(2) this]
      show "fadd r0 r1 = r0 + r1" "0 \<le> r0 + r1 \<and> 2 * (r0 + r1) \<in> \<int>" .
    qed
    have f23: "fadd r2 r3 = r2 + r3" "0 \<le> r2 + r3 \<and> 2 * (r2 + r3) \<in> \<int>"
    proof -
      have "r2 + r3 < 2 ^ 52" using b ok by linarith
      from fadd_exact [OF ok(3) ok(4) this]
      show "fadd r2 r3 = r2 + r3" "0 \<le> r2 + r3 \<and> 2 * (r2 + r3) \<in> \<int>" .
    qed
    have f45: "fadd r4 r5 = r4 + r5" "0 \<le> r4 + r5 \<and> 2 * (r4 + r5) \<in> \<int>"
    proof -
      have "r4 + r5 < 2 ^ 52" using b ok by linarith
      from fadd_exact [OF ok(5) ok(6) this]
      show "fadd r4 r5 = r4 + r5" "0 \<le> r4 + r5 \<and> 2 * (r4 + r5) \<in> \<int>" .
    qed
    have f67: "fadd r6 r7 = r6 + r7" "0 \<le> r6 + r7 \<and> 2 * (r6 + r7) \<in> \<int>"
    proof -
      have "r6 + r7 < 2 ^ 52" using b ok by linarith
      from fadd_exact [OF ok(7) ok(8) this]
      show "fadd r6 r7 = r6 + r7" "0 \<le> r6 + r7 \<and> 2 * (r6 + r7) \<in> \<int>" .
    qed
    have f03: "fadd (r0 + r1) (r2 + r3) = r0 + r1 + (r2 + r3)"
      "0 \<le> r0 + r1 + (r2 + r3) \<and> 2 * (r0 + r1 + (r2 + r3)) \<in> \<int>"
    proof -
      have "r0 + r1 + (r2 + r3) < 2 ^ 52" using b ok by linarith
      from fadd_exact [OF f01(2) f23(2) this]
      show "fadd (r0 + r1) (r2 + r3) = r0 + r1 + (r2 + r3)"
        "0 \<le> r0 + r1 + (r2 + r3) \<and> 2 * (r0 + r1 + (r2 + r3)) \<in> \<int>" .
    qed
    have f47: "fadd (r4 + r5) (r6 + r7) = r4 + r5 + (r6 + r7)"
      "0 \<le> r4 + r5 + (r6 + r7) \<and> 2 * (r4 + r5 + (r6 + r7)) \<in> \<int>"
    proof -
      have "r4 + r5 + (r6 + r7) < 2 ^ 52" using b ok by linarith
      from fadd_exact [OF f45(2) f67(2) this]
      show "fadd (r4 + r5) (r6 + r7) = r4 + r5 + (r6 + r7)"
        "0 \<le> r4 + r5 + (r6 + r7) \<and> 2 * (r4 + r5 + (r6 + r7)) \<in> \<int>" .
    qed
    have f07: "fadd (r0 + r1 + (r2 + r3)) (r4 + r5 + (r6 + r7)) = sum_list ?r"
      unfolding sr by (rule fadd_exact(1) [OF f03(2) f47(2) b])
    have okr': "0 \<le> sum_list ?r \<and> 2 * sum_list ?r \<in> \<int>" by (rule sum_list_exact [OF r(2)])
    have "pairwise_sum a =
            foldl fadd (fadd (fadd (fadd r0 r1) (fadd r2 r3)) (fadd (fadd r4 r5) (fadd r6 r7))) ?rest"
      unfolding r0_def r1_def r2_def r3_def r4_def r5_def r6_def r7_def
    proof -
      have c: "\<not> length a < 8" "length a \<le> 128" using 2 by simp_all
      show "pairwise_sum a =
            foldl fadd
              (fadd (fadd (fadd (?r ! 0) (?r ! 1)) (fadd (?r ! 2) (?r ! 3)))
                    (fadd (fadd (?r ! 4) (?r ! 5)) (fadd (?r ! 6) (?r ! 7)))) ?rest"
        by (simp only: pairwise_sum_block [OF c] Let_def)
    qed
    also have "\<dots> = foldl fadd (sum_list ?r) ?rest"
      by (simp only: f01(1) f23(1) f45(1) f67(1) f03(1) f47(1) f07)
    also have "\<dots> = sum_list ?r + sum_list ?rest"
      by (rule foldl_fadd_exact [OF okr' okr tot])
    also have "\<dots> = sum_list a" using r(3) sum by simp
    finally show ?thesis .
  next
    case 3
    let ?n2 = "length a div 2 - length a div 2 mod 8"
    have c: "\<not> length a < 8" "\<not> length a \<le> 128" using 3 by simp_all
    have sum: "sum_list a = sum_list (take ?n2 a) + sum_list (drop ?n2 a)"
      by (subst append_take_drop_id [of ?n2 a, symmetric]) (simp only: sum_list_append)
    have okt: "\<forall>x \<in> set (take ?n2 a). 0 \<le> x \<and> 2 * x \<in> \<int>"
      using "1.prems"(1) by (auto dest: in_set_takeD)
    have okd: "\<forall>x \<in> set (drop ?n2 a). 0 \<le> x \<and> 2 * x \<in> \<int>"
      using "1.prems"(1) by (auto dest: in_set_dropD)
    from sum_list_exact [OF okt] sum_list_exact [OF okd]
    have s: "0 \<le> sum_list (take ?n2 a) \<and> 2 * sum_list (take ?n2 a) \<in> \<int>"
      "0 \<le> sum_list (drop ?n2 a) \<and> 2 * sum_list (drop ?n2 a) \<in> \<int>" by simp_all
    have bt: "sum_list (take ?n2 a) < 2 ^ 52" and bd: "sum_list (drop ?n2 a) < 2 ^ 52"
      using sum s "1.prems"(2) by linarith+
    have "pairwise_sum (take ?n2 a) = sum_list (take ?n2 a)" by (rule "1.IH"(1) [OF c okt bt])
    moreover have "pairwise_sum (drop ?n2 a) = sum_list (drop ?n2 a)" by (rule "1.IH"(2) [OF c okd bd])
    moreover have "fadd (sum_list (take ?n2 a)) (sum_list (drop ?n2 a))
                     = sum_list (take ?n2 a) + sum_list (drop ?n2 a)"
      using fadd_exact(1) [OF s] sum "1.prems"(2) by simp
    ultimately show ?thesis by (simp only: pairwise_sum_halves [OF c] sum)
  qed
qed

lemma float64_round_of_int: "0 \<le> v \<Longrightarrow> v < 2 ^ 52 \<Longrightarrow> float64_round (of_int v) = of_int v"
proof (rule float64_round_exact)
  assume "0 \<le> v" "v < 2 ^ 52"
  then show "0 \<le> (of_int v :: rat)" by simp
  have "(of_int v :: rat) < of_int (2 ^ 52)" using \<open>v < 2 ^ 52\<close> by (simp only: of_int_less_iff)
  then show "(of_int v :: rat) < 2 ^ 52" by simp
  have "2 * (of_int v :: rat) = of_int (2 * v)" by simp
  then show "2 * (of_int v :: rat) \<in> \<int>" by (simp only: Ints_of_int)
qed

lemma float64_round_of_nat: "n < 2 ^ 52 \<Longrightarrow> float64_round (of_nat n) = of_nat n"
  using float64_round_of_int [of "int n"] by simp

lemma np_mean_single:
  assumes "0 \<le> v" "v < 2 ^ 52"
  shows "np_mean [Some (float64_round (of_int v))] = Some (of_int v)"
proof -
  have v: "float64_round (of_int v) = of_int v" by (rule float64_round_of_int [OF assms])
  have "pairwise_sum [of_int v] = fadd 0 (of_int v)" by (simp add: pairwise_sum_small)
  also have "\<dots> = of_int v" by (simp add: fadd_def v)
  finally have s: "pairwise_sum [of_int v] = of_int v" .
  have one: "float64_round 1 = 1" using float64_round_of_int [of 1] by simp
  show ?thesis by (simp add: np_mean_def v s one)
qed

lemma np_mean_pair:
  assumes "0 \<le> a" "0 \<le> b" "a + b < 2 ^ 52"
  shows "np_mean [Some (float64_round (of_int a)), Some (float64_round (of_int b))]
           = Some ((of_int a + of_int b) / 2)"
proof -
  have a: "float64_round (of_int a) = of_int a" using assms by (intro float64_round_of_int) simp_all
  have b: "float64_round (of_int b) = of_int b" using assms by (intro float64_round_of_int) simp_all
  have ab: "float64_round (of_int (a + b)) = of_int (a + b)"
    using assms by (intro float64_round_of_int) simp_all
  have "pairwise_sum [of_int a, of_int b] = fadd (fadd 0 (of_int a)) (of_int b)"
    by (simp add: pairwise_sum_small)
  also have "\<dots> = of_int a + of_int b" using ab by (simp add: fadd_def a)
  finally have s: "pairwise_sum [of_int a, of_int b] = of_int a + of_int b" .
  have two: "float64_round 2 = 2" using float64_round_of_int [of 2] by simp
  have "float64_round ((of_int a + of_int b) / 2) = (of_int a + of_int b) / 2"
  proof (rule float64_round_exact)
    show "0 \<le> (of_int a + of_int b) / (2::rat)" using assms by simp
    have "(of_int (a + b) :: rat) < of_int (2 ^ 52)" using assms(3) by (simp only: of_int_less_iff)
    then have "(of_int a + of_int b :: rat) < 2 ^ 52" by simp
    moreover have "0 \<le> (of_int a + of_int b :: rat)" using assms by simp
    then have "(of_int a + of_int b) / (2::rat) \<le> of_int a + of_int b" by simp
    ultimately show "(of_int a + of_int b) / (2::rat) < 2 ^ 52" by (rule le_less_trans [rotated])
    have "2 * ((of_int a + of_int b) / (2::rat)) = of_int (a + b)" by simp
    then show "2 * ((of_int a + of_int b) / (2::rat)) \<in> \<int>" by (simp only: Ints_of_int)
  qed
  then show ?thesis by (simp add: np_mean_def a b s two)
qed

subsection \<open>The median of a group\<close>

lemma np_median_value:
  assumes "xs \<noteq> []" "\<forall>x \<in> set xs. 0 \<le> x \<and> x < 2 ^ 51"
  shows "np_median xs =
           Some (if odd (length xs) then of_int (sort xs ! (length xs div 2))
                 else (of_int (sort xs ! (length xs div 2 - 1))
                         + of_int (sort xs ! (length xs div 2))) / 2)"
proof -
  let ?ys = "sort xs"
  let ?k = "length xs div 2"
  have n: "0 < length xs" using assms(1) by simp
  have el: "0 \<le> ?ys ! i \<and> ?ys ! i < 2 ^ 51" if "i < length xs" for i
  proof -
    from that have "?ys ! i \<in> set ?ys" by (intro nth_mem) simp
    then have "?ys ! i \<in> set xs" by simp
    with assms(2) show ?thesis by blast
  qed
  show ?thesis
  proof (cases "odd (length xs)")
    case True
    have k: "?k < length xs" using n by simp
    from el [OF k] have "0 \<le> ?ys ! ?k" "?ys ! ?k < 2 ^ 52" by simp_all
    from np_mean_single [OF this] assms(1) True show ?thesis by (simp add: np_median_def)
  next
    case False
    then have "length xs = 2 * ?k" by simp
    with n have k: "?k - 1 < length xs" "?k < length xs" by linarith+
    from el [OF k(1)] el [OF k(2)]
    have "0 \<le> ?ys ! (?k - 1)" "0 \<le> ?ys ! ?k" "?ys ! (?k - 1) + ?ys ! ?k < 2 ^ 52" by simp_all
    from np_mean_pair [OF this] assms(1) False show ?thesis by (simp add: np_median_def)
  qed
qed

lemma np_median_is_median:
  assumes "xs \<noteq> []" "\<forall>x \<in> set xs. 0 \<le> x \<and> x < 2 ^ 51"
  shows "is_median (the (np_median xs)) xs"
proof -
  let ?ys = "sort xs"
  let ?n = "length xs"
  let ?k = "?n div 2"
  have n: "0 < ?n" using assms by simp
  have ly: "length ?ys = ?n" by simp
  have srt: "sorted ?ys" by simp
  have mono: "?ys ! i \<le> ?ys ! j" if "i \<le> j" "j < ?n" for i j
    using sorted_nth_mono [OF srt that(1)] that(2) by simp
  show ?thesis
  proof (cases "odd ?n")
    case True
    let ?m = "of_int (?ys ! ?k) :: rat"
    have med: "the (np_median xs) = ?m" using np_median_value [OF assms] True by simp
    have k: "?k < ?n" using n by simp
    have "Suc ?k \<le> length (filter (\<lambda>x. of_int x \<le> ?m) ?ys)"
    proof (rule filter_ge_prefix)
      show "Suc ?k \<le> length ?ys" using k by simp
      show "\<forall>i < Suc ?k. (of_int (?ys ! i) :: rat) \<le> ?m"
        using mono k by (simp add: less_Suc_eq_le)
    qed
    then have lo: "?n \<le> 2 * length (filter (\<lambda>x. of_int x \<le> ?m) xs)"
      by (simp add: length_filter_sort)
    have "length ?ys - ?k \<le> length (filter (\<lambda>x. ?m \<le> of_int x) ?ys)"
    proof (rule filter_ge_suffix)
      show "?k \<le> length ?ys" using k by simp
      show "\<forall>i. ?k \<le> i \<and> i < length ?ys \<longrightarrow> ?m \<le> (of_int (?ys ! i) :: rat)"
        using mono by simp
    qed
    then have hi: "?n \<le> 2 * length (filter (\<lambda>x. ?m \<le> of_int x) xs)"
      by (simp add: length_filter_sort)
    from lo hi show ?thesis unfolding is_median_def med by blast
  next
    case False
    then have ev: "?n = 2 * ?k" by simp
    with n have k: "0 < ?k" "?k < ?n" by linarith+
    let ?a = "?ys ! (?k - 1)"
    let ?b = "?ys ! ?k"
    let ?m = "(of_int ?a + of_int ?b) / 2 :: rat"
    have med: "the (np_median xs) = ?m" using np_median_value [OF assms] False by simp
    have ab: "?a \<le> ?b" using mono [of "?k - 1" ?k] k by simp
    then have "(of_int ?a :: rat) \<le> of_int ?b" by simp
    then have am: "of_int ?a \<le> ?m" and mb: "?m \<le> of_int ?b" by simp_all
    have "?k \<le> length (filter (\<lambda>x. of_int x \<le> ?m) ?ys)"
    proof (rule filter_ge_prefix)
      show "?k \<le> length ?ys" using k by simp
      show "\<forall>i < ?k. (of_int (?ys ! i) :: rat) \<le> ?m"
      proof (intro allI impI)
        fix i assume "i < ?k"
        then have "?ys ! i \<le> ?a" using mono [of i "?k - 1"] k by simp
        then have "(of_int (?ys ! i) :: rat) \<le> of_int ?a" by simp
        with am show "(of_int (?ys ! i) :: rat) \<le> ?m" by linarith
      qed
    qed
    then have lo: "?n \<le> 2 * length (filter (\<lambda>x. of_int x \<le> ?m) xs)"
      using ev by (simp add: length_filter_sort)
    have "length ?ys - ?k \<le> length (filter (\<lambda>x. ?m \<le> of_int x) ?ys)"
    proof (rule filter_ge_suffix)
      show "?k \<le> length ?ys" using k by simp
      show "\<forall>i. ?k \<le> i \<and> i < length ?ys \<longrightarrow> ?m \<le> (of_int (?ys ! i) :: rat)"
      proof (intro allI impI)
        fix i assume "?k \<le> i \<and> i < length ?ys"
        then have "?b \<le> ?ys ! i" using mono [of ?k i] by simp
        then have "(of_int ?b :: rat) \<le> of_int (?ys ! i)" by simp
        with mb show "?m \<le> (of_int (?ys ! i) :: rat)" by linarith
      qed
    qed
    then have hi: "?n \<le> 2 * length (filter (\<lambda>x. ?m \<le> of_int x) xs)"
      using ev by (simp add: length_filter_sort)
    from lo hi show ?thesis unfolding is_median_def med by blast
  qed
qed


lemma np_median_bounds:
  assumes "xs \<noteq> []" "\<forall>x \<in> set xs. 1 \<le> x \<and> x \<le> 2 ^ 26"
  shows "np_median xs = Some (the (np_median xs))
       \<and> 1 \<le> the (np_median xs) \<and> the (np_median xs) \<le> 2 ^ 26 \<and> 2 * the (np_median xs) \<in> \<int>"
proof -
  let ?ys = "sort xs"
  let ?k = "length xs div 2"
  have n: "0 < length xs" using assms(1) by simp
  have b: "\<forall>x \<in> set xs. 0 \<le> x \<and> x < 2 ^ 51" using assms(2) by fastforce
  have el: "(1::rat) \<le> of_int (?ys ! i) \<and> (of_int (?ys ! i) :: rat) \<le> 2 ^ 26" if "i < length xs" for i
  proof -
    from that have "?ys ! i \<in> set ?ys" by (intro nth_mem) simp
    then have "?ys ! i \<in> set xs" by simp
    with assms(2) have "1 \<le> ?ys ! i" "?ys ! i \<le> 2 ^ 26" by blast+
    then have "(of_int 1 :: rat) \<le> of_int (?ys ! i)" "(of_int (?ys ! i) :: rat) \<le> of_int (2 ^ 26)"
      by (simp_all only: of_int_le_iff)
    then show ?thesis by simp
  qed
  show ?thesis
  proof (cases "odd (length xs)")
    case True
    have k: "?k < length xs" using n by simp
    have "2 * (of_int (?ys ! ?k) :: rat) = of_int (2 * ?ys ! ?k)" by simp
    then have "2 * (of_int (?ys ! ?k) :: rat) \<in> \<int>" by (simp only: Ints_of_int)
    with el [OF k] show ?thesis using np_median_value [OF assms(1) b] True by simp
  next
    case False
    then have "length xs = 2 * ?k" by simp
    with n have k: "?k - 1 < length xs" "?k < length xs" by linarith+
    let ?m = "(of_int (?ys ! (?k - 1)) + of_int (?ys ! ?k)) / 2 :: rat"
    have "2 * ?m = of_int (?ys ! (?k - 1) + ?ys ! ?k)" by simp
    then have "2 * ?m \<in> \<int>" by (simp only: Ints_of_int)
    moreover from el [OF k(1)] el [OF k(2)] have "1 \<le> ?m" "?m \<le> 2 ^ 26" by simp_all
    ultimately show ?thesis using np_median_value [OF assms(1) b] False by simp
  qed
qed

lemma sum_list_bounds:
  "\<forall>x \<in> set ms. l \<le> x \<and> x \<le> u \<Longrightarrow>
     of_nat (length ms) * l \<le> sum_list ms \<and> sum_list ms \<le> of_nat (length ms) * u"
  for ms :: "rat list"
proof (induction ms)
  case Nil
  then show ?case by simp
next
  case (Cons m ms)
  then have "l \<le> m" "m \<le> u" "of_nat (length ms) * l \<le> sum_list ms"
    "sum_list ms \<le> of_nat (length ms) * u" by simp_all
  then show ?case by (simp add: algebra_simps)
qed

lemma np_mean_exact_sum:
  assumes "ms \<noteq> []" "length ms < 2 ^ 26" "\<forall>m \<in> set ms. 1 \<le> m \<and> m \<le> 2 ^ 26 \<and> 2 * m \<in> \<int>"
  shows "np_mean (map Some ms) = Some (float64_round (sum_list ms / of_nat (length ms)))"
    and "1 \<le> sum_list ms / of_nat (length ms)"
proof -
  let ?g = "length ms"
  have g: "0 < ?g" using assms(1) by simp
  from assms(3) have "\<forall>m \<in> set ms. 1 \<le> m \<and> m \<le> 2 ^ 26" by blast
  from sum_list_bounds [OF this]
  have lo: "of_nat ?g \<le> sum_list ms" and hi: "sum_list ms \<le> of_nat ?g * 2 ^ 26" by simp_all
  have "(of_nat ?g :: rat) < of_nat (2 ^ 26)" using assms(2) by (simp only: of_nat_less_iff)
  then have "(of_nat ?g :: rat) * 2 ^ 26 < 2 ^ 26 * 2 ^ 26" by simp
  also have "\<dots> = (2::rat) ^ 52" by simp
  finally have "sum_list ms < 2 ^ 52" using hi by linarith
  moreover have "\<forall>x \<in> set ms. 0 \<le> x \<and> 2 * x \<in> \<int>" using assms(3) by fastforce
  ultimately have s: "pairwise_sum ms = sum_list ms" by (intro pairwise_sum_exact)
  have "?g < 2 ^ 52"
  proof -
    have "(2::nat) ^ 26 \<le> 2 ^ 52" by (intro power_increasing) simp_all
    with assms(2) show ?thesis by linarith
  qed
  then have n: "float64_round (of_nat ?g) = of_nat ?g" by (rule float64_round_of_nat)
  have "map the (map Some ms) = ms" by (simp add: comp_def)
  then show "np_mean (map Some ms) = Some (float64_round (sum_list ms / of_nat ?g))"
    using assms(1) by (simp add: np_mean_def s n del: map_map)
  from lo g show "1 \<le> sum_list ms / of_nat ?g" by (simp add: le_divide_eq)
qed

subsection \<open>The estimate\<close>

lemma float64_round_38_3: "float64_round (38 / 3) = 7130699410003285 / 562949953421312"
proof -
  have f: "\<lfloor>38 / 3 :: rat\<rfloor> = 12" by (rule floor_unique) simp_all
  have "floor_log2 12 = 3" by (simp add: floor_log2.simps)
  with f have e: "fexp (38 / 3) = 3" by (simp add: fexp_def)
  have u: "float64_ulp (38 / 3) = 1 / 2 ^ 49"
    by (simp add: float64_ulp_def e power_int_def power_divide)
  have q: "38 / 3 / (1 / 2 ^ 49) = (21392098230009856 / 3 :: rat)" by simp
  have fl: "\<lfloor>21392098230009856 / 3 :: rat\<rfloor> = 7130699410003285"
    by (rule floor_unique) simp_all
  have "round_half_even (21392098230009856 / 3) = 7130699410003285"
    by (simp add: round_half_even_def fl)
  then show ?thesis by (simp add: float64_round_def u q)
qed

lemma np_shuffle_example:
  "np_shuffle Suc [64, 2, 1, 8, 4, 4, 64, 32, 16 :: int] = [2, 1, 8, 4, 4, 64, 32, 16, 64]"
proof -
  have "shuffle_loop Suc (Suc (Suc (Suc (Suc (Suc (Suc (Suc (Suc 0))))))))
          [64, 2, 1, 8, 4, 4, 64, 32, 16 :: int] = [2, 1, 8, 4, 4, 64, 32, 16, 64]"
    by simp
  then show ?thesis by (simp add: np_shuffle_def eval_nat_numeral)
qed

lemma sections_3:
  "sections 3 sz xs = [take sz xs, take sz (drop sz xs), take sz (drop sz (drop sz xs))]"
  by (simp add: numeral_3_eq_3)

lemma np_median_examples:
  "np_median [2, 1, 8] = Some 2"
  "np_median [4, 4, 64] = Some 4"
  "np_median [32, 16, 64] = Some 32"
  "np_median [32, 1, 4, 2] = Some 3"
  using np_median_value [of "[2, 1, 8]"] np_median_value [of "[4, 4, 64]"]
    np_median_value [of "[32, 16, 64]"] np_median_value [of "[32, 1, 4, 2]"]
  by simp_all

lemma np_split_example:
  "np_split (np_shuffle Suc (np_power 2 [6, 1, 0, 3, 2, 2, 6, 5, 4])) 3
     = Inr [[2, 1, 8], [4, 4, 64], [32, 16, 64]]"
proof -
  have "np_power 2 [6, 1, 0, 3, 2, 2, 6, 5, 4] = [64, 2, 1, 8, 4, 4, 64, 32, 16]"
    using np_power_2 [of "[6, 1, 0, 3, 2, 2, 6, 5, 4]"] by simp
  then show ?thesis by (simp add: np_shuffle_example np_split_def sections_3)
qed

lemma np_mean_example:
  "np_mean [Some 2, Some 4, Some 32] = Some (7130699410003285 / 562949953421312)"
  using np_mean_exact_sum(1) [of "[2, 4, 32]"] by (simp add: float64_round_38_3)

lemma final_estimate_example:
  "final_estimate Suc [6, 1, 0, 3, 2, 2, 6, 5, 4] 3 = Inr (Some (7130699410003285 / 562949953421312))"
proof -
  have "np_power 2 [6, 1, 0, 3, 2, 2, 6, 5, 4] = [64, 2, 1, 8, 4, 4, 64, 32, 16]"
    using np_power_2 [of "[6, 1, 0, 3, 2, 2, 6, 5, 4]"] by simp
  then show ?thesis
    by (simp add: final_estimate_def np_shuffle_example np_split_def sections_3
        np_median_examples np_mean_example)
qed

text \<open>
  Above the trackers the update loop can leave, the integer powers wrap: two trackers of 63
  give the estimate \<open>- 2 ^ 63\<close>.
\<close>

lemma np_power_wraps: "np_power 2 [62, 63, 64] = [2 ^ 62, - (2 ^ 63), 0]"
  by (simp add: np_power_def)

lemma float64_round_neg_pow2:
  "float64_round (- 9223372036854775808) = - 9223372036854775808"
  "float64_round (- 18446744073709551616) = - 18446744073709551616"
proof -
  have f: "floor_log2 9223372036854775808 = 63" "floor_log2 18446744073709551616 = 64"
    by (simp_all add: floor_log2.simps)
  have fl: "\<lfloor>9223372036854775808 :: rat\<rfloor> = 9223372036854775808"
    "\<lfloor>18446744073709551616 :: rat\<rfloor> = 18446744073709551616"
    by (rule floor_unique; simp)+
  have e: "fexp 9223372036854775808 = 63" "fexp 18446744073709551616 = 64"
    using f fl by (simp_all add: fexp_def)
  have u: "float64_ulp (- 9223372036854775808) = 2048"
    "float64_ulp (- 18446744073709551616) = 4096"
    by (simp_all add: float64_ulp_def e power_int_def)
  have "(- 4503599627370496 :: rat) = of_int (- 4503599627370496)" by simp
  then have q: "round_half_even (- 4503599627370496) = - 4503599627370496"
    by (simp only: round_half_even_of_int)
  show "float64_round (- 9223372036854775808) = - 9223372036854775808"
    "float64_round (- 18446744073709551616) = - 18446744073709551616"
    by (simp_all add: float64_round_def u q)
qed

lemma final_estimate_wraps: "final_estimate rng [63, 63] 1 = Inr (Some (- 9223372036854775808))"
proof -
  have p: "np_power 2 [63, 63] = [- 9223372036854775808, - 9223372036854775808]"
    by (simp add: np_power_def)
  have s: "np_shuffle rng [a, a] = [a, a]" for a :: int
  proof -
    have "rng (Suc 0) mod Suc (Suc 0) < Suc (Suc 0)" by simp
    then have "rng (Suc 0) mod Suc (Suc 0) = 0 \<or> rng (Suc 0) mod Suc (Suc 0) = Suc 0"
      by (simp only: less_Suc_eq) simp
    then have "shuffle_loop rng (Suc 0) [a, a] = [a, a]" by (elim disjE) simp_all
    then show ?thesis by (simp add: np_shuffle_def)
  qed
  have two: "float64_round 2 = 2" using float64_round_of_int [of 2] by simp
  have "pairwise_sum [- 9223372036854775808, - 9223372036854775808] = - 18446744073709551616"
    by (simp add: pairwise_sum_small fadd_def float64_round_neg_pow2)
  then have m: "np_median [- 9223372036854775808, - 9223372036854775808]
                  = Some (- 9223372036854775808)"
    by (simp add: np_median_def np_mean_def float64_round_neg_pow2 two)
  have one: "float64_round 1 = 1" using float64_round_of_int [of 1] by simp
  have "pairwise_sum [- 9223372036854775808] = - 9223372036854775808"
    by (simp add: pairwise_sum_small fadd_def float64_round_neg_pow2)
  then have "np_mean [Some (- 9223372036854775808)] = Some (- 9223372036854775808)"
    by (simp add: np_mean_def float64_round_neg_pow2 one)
  with m show ?thesis
    by (simp add: final_estimate_def p s np_split_def)
qed

text \<open>
  Claim C9. For \<open>num_groups\<close> groups of \<open>samples_per_group\<close> trackers each, the trackers
  below 27 (as the update loop leaves them, lemma \<open>flajolet_martin_trackers\<close>) and fewer than
  \<open>2 ^ 26\<close> groups: the estimates \<open>2 ^ Rs[j]\<close> are partitioned into \<open>num_groups\<close> buckets of
  \<open>samples_per_group\<close> estimates (the sections of the shuffled array), each bucket has its
  median taken, and the final estimate is the arithmetic mean of the \<open>num_groups\<close> medians,
  as the double nearest to it: within a relative error of \<open>2 ^ - 53\<close>.
\<close>

theorem final_estimate_aggregation:
  assumes "0 < num_groups" "0 < samples_per_group"
    and "length Rs = num_groups * samples_per_group"
    and "\<forall>r \<in> set Rs. r < 27" "num_groups < 2 ^ 26"
  shows "\<exists>buckets medians.
           length buckets = num_groups
         \<and> (\<forall>b \<in> set buckets. length b = samples_per_group)
         \<and> mset (concat buckets) = mset (map (\<lambda>r. 2 ^ r) Rs)
         \<and> map np_median buckets = map Some medians
         \<and> (\<forall>g < num_groups. is_median (medians ! g) (buckets ! g))
         \<and> final_estimate rng Rs num_groups
             = Inr (Some (float64_round (sum_list medians / of_nat num_groups)))
         \<and> \<bar>float64_round (sum_list medians / of_nat num_groups)
              - sum_list medians / of_nat num_groups\<bar>
             \<le> sum_list medians / of_nat num_groups / 2 ^ 53"
proof -
  let ?est = "map (\<lambda>r. 2 ^ r) Rs :: int list"
  let ?sh = "np_shuffle rng ?est"
  let ?bs = "sections num_groups samples_per_group ?sh"
  let ?ms = "map (\<lambda>b. the (np_median b)) ?bs"
  have "\<forall>r \<in> set Rs. r < 63" using assms(4) by fastforce
  then have pw: "np_power 2 Rs = ?est" by (rule np_power_2)
  have ms: "mset ?sh = mset ?est" by (rule mset_np_shuffle)
  then have "size (mset ?sh) = size (mset ?est)" by simp
  then have lsh: "length ?sh = num_groups * samples_per_group"
    using assms(3) by (simp only: size_mset length_map)
  from sections_props [OF lsh]
  have lb: "length ?bs = num_groups" and each: "\<forall>b \<in> set ?bs. length b = samples_per_group"
    and cc: "concat ?bs = ?sh" by simp_all
  have split: "np_split ?sh num_groups = Inr ?bs"
    using assms(1,2) lsh by (simp add: np_split_def)
  have est: "1 \<le> x \<and> x \<le> 2 ^ 26" if "x \<in> set ?est" for x
  proof -
    from that obtain r where r: "r \<in> set Rs" "x = 2 ^ r" by auto
    with assms(4) have "r \<le> 26" by fastforce
    then have "(2::int) ^ r \<le> 2 ^ 26" by (intro power_increasing) simp_all
    with r show ?thesis by simp
  qed
  have bel: "1 \<le> x \<and> x \<le> 2 ^ 26" if "b \<in> set ?bs" "x \<in> set b" for b x
  proof -
    from that have "x \<in> set (concat ?bs)" by auto
    then have "x \<in> set ?sh" by (simp only: cc)
    then have "x \<in> set ?est" using mset_eq_setD [OF ms] by simp
    then show ?thesis by (rule est)
  qed
  have med: "np_median b = Some (the (np_median b)) \<and> is_median (the (np_median b)) b
             \<and> 1 \<le> the (np_median b) \<and> the (np_median b) \<le> 2 ^ 26 \<and> 2 * the (np_median b) \<in> \<int>"
    if "b \<in> set ?bs" for b
  proof -
    from each that assms(2) have ne: "b \<noteq> []" by auto
    have b1: "\<forall>x \<in> set b. 1 \<le> x \<and> x \<le> 2 ^ 26" using bel [OF that] by blast
    then have b2: "\<forall>x \<in> set b. 0 \<le> x \<and> x < 2 ^ 51" by fastforce
    from np_median_bounds [OF ne b1] np_median_is_median [OF ne b2] show ?thesis by simp
  qed
  then have maps: "map np_median ?bs = map Some ?ms" by simp
  have meds: "\<forall>g < num_groups. is_median (?ms ! g) (?bs ! g)"
    using med lb by simp
  have lm: "length ?ms = num_groups" using lb by simp
  have ne: "?ms \<noteq> []" using lm assms(1) by auto
  have okm: "\<forall>m \<in> set ?ms. 1 \<le> m \<and> m \<le> 2 ^ 26 \<and> 2 * m \<in> \<int>" using med by simp
  from np_mean_exact_sum [OF ne _ okm] assms(5) lm
  have mean: "np_mean (map Some ?ms) = Some (float64_round (sum_list ?ms / of_nat num_groups))"
    and ge1: "1 \<le> sum_list ?ms / of_nat num_groups"
    by simp_all
  have fin: "final_estimate rng Rs num_groups
               = Inr (Some (float64_round (sum_list ?ms / of_nat num_groups)))"
    by (simp only: final_estimate_def pw split maps mean sum.case)
  from lb each cc ms maps meds fin float64_round_error [OF ge1] show ?thesis
    by (intro exI [of _ ?bs] exI [of _ ?ms]) simp
qed

theorem final_estimate_aggregation_witness:
  "(0::nat) < 3 \<and> length [6, 1, 0, 3, 2, 2, 6, 5, 4 :: nat] = 3 * 3 \<and> (3::nat) < 2 ^ 26
   \<and> np_split (np_shuffle Suc (np_power 2 [6, 1, 0, 3, 2, 2, 6, 5, 4])) 3
       = Inr [[2, 1, 8], [4, 4, 64], [32, 16, 64]]
   \<and> map np_median [[2, 1, 8], [4, 4, 64], [32, 16, 64]] = [Some 2, Some 4, Some 32]
   \<and> final_estimate Suc [6, 1, 0, 3, 2, 2, 6, 5, 4] 3
       = Inr (Some (7130699410003285 / 562949953421312))
   \<and> (\<exists>buckets medians. length buckets = 3 \<and> map np_median buckets = map Some medians
         \<and> mset (concat buckets) = mset (map (\<lambda>r. 2 ^ r) [6, 1, 0, 3, 2, 2, 6, 5, 4 :: nat])
         \<and> is_median (medians ! 0) (buckets ! 0)
         \<and> (7130699410003285 / 562949953421312 :: rat)
              = float64_round (sum_list medians / of_nat 3))"
proof -
  have g: "(0::nat) < 3" by simp
  have l: "length [6, 1, 0, 3, 2, 2, 6, 5, 4 :: nat] = 3 * 3" by simp
  have r: "\<forall>r \<in> set [6, 1, 0, 3, 2, 2, 6, 5, 4 :: nat]. r < 27" by simp
  have b: "(3::nat) < 2 ^ 26" by simp
  from final_estimate_aggregation [OF g g l r b, of Suc]
  obtain buckets medians where "length buckets = 3" "map np_median buckets = map Some medians"
    "mset (concat buckets) = mset (map (\<lambda>r. 2 ^ r) [6, 1, 0, 3, 2, 2, 6, 5, 4 :: nat])"
    "\<forall>g < 3. is_median (medians ! g) (buckets ! g)"
    "final_estimate Suc [6, 1, 0, 3, 2, 2, 6, 5, 4] 3
       = Inr (Some (float64_round (sum_list medians / of_nat 3)))"
    by blast
  with g l b final_estimate_example np_split_example np_median_examples(1,2,3)
  show ?thesis by auto
qed

end
